theory Spec2Isabelle
  imports Main "HOL-Library.Sublist"
begin

section \<open>JavaScript library functions used by the plugin\<close>

text \<open>
  The plugin is a single TypeScript file, \<^verbatim>\<open>.opencode/plugins/message-interceptor.ts\<close>.
  JavaScript strings are modelled as \<^typ>\<open>string\<close>, that is as lists of characters
  with codes below 256; the functions of the standard library that the plugin calls are
  written out for that range.
\<close>

definition nl :: char where
  "nl = CHR 0x0A"

text \<open>\<^verbatim>\<open>lines.join("\n")\<close>.\<close>

fun joinLines :: "string list \<Rightarrow> string" where
  "joinLines [] = []"
| "joinLines [l] = l"
| "joinLines (l # m # ls) = l @ nl # joinLines (m # ls)"

text \<open>
  \<^verbatim>\<open>s.indexOf(pat, from)\<close> and \<^verbatim>\<open>s.lastIndexOf(pat)\<close>: the least index not below
  \<open>from\<close>, or the greatest index, at which \<open>pat\<close> occurs in \<open>s\<close>, and \<open>-1\<close> when there
  is none.
\<close>

definition occursAt :: "string \<Rightarrow> string \<Rightarrow> nat \<Rightarrow> bool" where
  "occursAt pat s k = (take (length pat) (drop k s) = pat)"

definition indexOf :: "string \<Rightarrow> string \<Rightarrow> nat \<Rightarrow> int" where
  "indexOf s pat from =
     (case find (occursAt pat s) [from ..< Suc (length s)] of
        None \<Rightarrow> - 1
      | Some k \<Rightarrow> int k)"

definition lastIndexOf :: "string \<Rightarrow> string \<Rightarrow> int" where
  "lastIndexOf s pat =
     (case find (occursAt pat s) (rev [0 ..< Suc (length s)]) of
        None \<Rightarrow> - 1
      | Some k \<Rightarrow> int k)"

text \<open>\<^verbatim>\<open>s.replace(/^\n+/, "")\<close>: the pattern is anchored at the start of the input.\<close>

definition stripLeadingNewlines :: "string \<Rightarrow> string" where
  "stripLeadingNewlines s = dropWhile (\<lambda>c. c = nl) s"

text \<open>
  \<^verbatim>\<open>s.trim()\<close> removes white space and line terminators at both ends. Below code 256
  these are tab, line feed, vertical tab, form feed, carriage return, space and the
  no-break space.
\<close>

definition isWhiteSpace :: "char \<Rightarrow> bool" where
  "isWhiteSpace c = ((of_char c :: nat) \<in> {9, 10, 11, 12, 13, 32, 160})"

definition trim :: "string \<Rightarrow> string" where
  "trim s = rev (dropWhile isWhiteSpace (rev (dropWhile isWhiteSpace s)))"

text \<open>The decimal rendering of a number inside a template literal.\<close>

definition digitChar :: "nat \<Rightarrow> char" where
  "digitChar d = char_of (48 + d)"

fun showNat :: "nat \<Rightarrow> string" where
  "showNat n = (if n < 10 then [digitChar n] else showNat (n div 10) @ [digitChar (n mod 10)])"

declare showNat.simps [simp del]

text \<open>\<^verbatim>\<open>xs.indexOf(x)\<close> on an array: the first position of \<open>x\<close>, or \<open>-1\<close>.\<close>

fun arrayIndexOf :: "'a list \<Rightarrow> 'a \<Rightarrow> int" where
  "arrayIndexOf [] x = - 1"
| "arrayIndexOf (y # ys) x =
     (if y = x then 0
      else (let r = arrayIndexOf ys x in if r = - 1 then - 1 else r + 1))"

text \<open>
  Values of type \<^verbatim>\<open>any\<close>: the tool inputs and outputs of a message part and the
  \<^verbatim>\<open>extra\<close> payload of a log record. \<open>truthy\<close> is the test an \<^verbatim>\<open>if\<close> or
  \<^verbatim>\<open>||\<close> makes.
\<close>

datatype jsval =
    Undefined
  | Null
  | Bool bool
  | Num int
  | Str string
  | Arr "jsval list"
  | Obj "(string \<times> jsval) list"

fun truthy :: "jsval \<Rightarrow> bool" where
  "truthy Undefined = False"
| "truthy Null = False"
| "truthy (Bool b) = b"
| "truthy (Num n) = (n \<noteq> 0)"
| "truthy (Str s) = (s \<noteq> [])"
| "truthy (Arr _) = True"
| "truthy (Obj _) = True"

text \<open>\<^verbatim>\<open>a || b\<close> on optional strings: an absent or empty string is falsy.\<close>

fun orElse :: "string option \<Rightarrow> string \<Rightarrow> string" where
  "orElse None d = d"
| "orElse (Some s) d = (if s = [] then d else s)"

section \<open>Data model\<close>

text \<open>
  A message part is an object with a \<^verbatim>\<open>type\<close>; the plugin reads its \<^verbatim>\<open>text\<close>,
  \<^verbatim>\<open>tool\<close>, \<^verbatim>\<open>name\<close>, \<^verbatim>\<open>input\<close> and \<^verbatim>\<open>output\<close> properties and writes
  \<^verbatim>\<open>text\<close>. An absent string property is \<open>None\<close>.
\<close>

record part =
  part_type :: string
  part_text :: "string option"
  part_tool :: "string option"
  part_name :: "string option"
  part_input :: jsval
  part_output :: jsval

text \<open>An element of \<^verbatim>\<open>output.messages\<close>: \<open>role\<close> is \<^verbatim>\<open>m.info.role\<close>.\<close>

record message =
  role :: string
  parts :: "part list"

record model =
  providerID :: string
  modelID :: string

text \<open>
  \<^verbatim>\<open>JSON.stringify\<close> and \<^verbatim>\<open>String.prototype.toUpperCase\<close> are functions of the
  runtime, taken as parameters: \<open>stringify\<close> is \<^verbatim>\<open>JSON.stringify(v, null, 2)\<close>,
  \<open>stringifyPart\<close> is \<^verbatim>\<open>JSON.stringify(part)\<close> and \<open>toUpperCase s\<close> is
  \<^verbatim>\<open>s.toUpperCase()\<close>, which follows the Unicode case mappings.
\<close>

record lib =
  stringify :: "jsval \<Rightarrow> string"
  stringifyPart :: "part \<Rightarrow> string"
  toUpperCase :: "string \<Rightarrow> string"

record config =
  logLevel :: string
  enableEditor :: bool
  editor :: string
  autoEdit :: bool
  showSystemMessages :: bool
  messageTypes :: "string list"

record analytics =
  messagesIntercepted :: nat
  messagesEdited :: nat
  editorSessions :: nat

record logrec =
  log_level :: string
  log_message :: string
  log_extra :: jsval

section \<open>formatFullContext\<close>

text \<open>
  The function pushes onto a local array \<^verbatim>\<open>lines\<close> and returns
  \<^verbatim>\<open>lines.join("\n")\<close>. Each loop below takes the array built so far and returns it
  extended. The time stamp \<^verbatim>\<open>new Date().toISOString()\<close> is a parameter.
\<close>

definition modelLine :: "model \<Rightarrow> string" where
  "modelLine m =
     ''**Model:** '' @ (if providerID m = [] then ''[object Object]'' else providerID m)
       @ ''/'' @ modelID m"

definition preambleLines :: "string \<Rightarrow> model option \<Rightarrow> nat \<Rightarrow> string list" where
  "preambleLines timestamp mdl n =
     [''# OpenCode Micromanager - Full LLM Context'', '''', ''**Timestamp:** '' @ timestamp]
     @ (case mdl of None \<Rightarrow> [] | Some m \<Rightarrow> [modelLine m])
     @ [''**Messages:** '' @ showNat n, '''']"

text \<open>\<^verbatim>\<open>for (const s of system) { lines.push(s); lines.push("") }\<close>\<close>

fun systemLoop :: "string list \<Rightarrow> string list \<Rightarrow> string list" where
  "systemLoop [] lines = lines"
| "systemLoop (s # ss) lines = systemLoop ss (lines @ [s, ''''])"

definition systemSection :: "string list \<Rightarrow> string list \<Rightarrow> string list" where
  "systemSection system lines =
     (if length system > 0
      then systemLoop system (lines @ [''## System Prompt'', '''']) @ [''---'', '''']
      else lines)"

text \<open>The body of \<^verbatim>\<open>for (const part of msg.parts)\<close>.\<close>

definition pushPart :: "lib \<Rightarrow> part \<Rightarrow> string list \<Rightarrow> string list" where
  "pushPart js p lines =
     (if part_type p = ''text'' then
        lines @ [case part_text p of None \<Rightarrow> '''' | Some t \<Rightarrow> t]
      else if part_type p = ''tool'' then
        lines
        @ [''**[Tool: '' @ orElse (part_tool p) (orElse (part_name p) ''unknown'') @ '']**'']
        @ (if truthy (part_input p)
           then [''```json'', stringify js (part_input p), ''```''] else [])
        @ (if truthy (part_output p)
           then [''Output:'', ''```'',
                 (case part_output p of Str s \<Rightarrow> s | v \<Rightarrow> stringify js v),
                 ''```'']
           else [])
      else
        lines @ [''['' @ part_type p @ '': '' @ take 200 (stringifyPart js p) @ '']''])
     @ ['''']"

fun partsLoop :: "lib \<Rightarrow> part list \<Rightarrow> string list \<Rightarrow> string list" where
  "partsLoop js [] lines = lines"
| "partsLoop js (p # ps) lines = partsLoop js ps (pushPart js p lines)"

definition editableSuffix :: string where
  "editableSuffix = '' (Current - Editable)''"

text \<open>The header pushed for the message at index \<open>i\<close>.\<close>

definition headerLine :: "lib \<Rightarrow> message list \<Rightarrow> nat \<Rightarrow> string" where
  "headerLine js messages i =
     (let msg = messages ! i;
          isLast = (int i = int (length messages) - 1);
          roleLabel = toUpperCase js (role msg)
      in if isLast \<and> role msg = ''user''
         then ''## ['' @ showNat (i + 1) @ ''/'' @ showNat (length messages) @ ''] ''
                @ roleLabel @ editableSuffix
         else ''## ['' @ showNat (i + 1) @ ''/'' @ showNat (length messages) @ ''] ''
                @ roleLabel)"

text \<open>\<^verbatim>\<open>for (let i = 0; i < messages.length; i++)\<close>\<close>

function messagesLoop :: "lib \<Rightarrow> message list \<Rightarrow> nat \<Rightarrow> string list \<Rightarrow> string list" where
  "messagesLoop js messages i lines =
     (if i < length messages then
        messagesLoop js messages (i + 1)
          (partsLoop js (parts (messages ! i)) (lines @ [headerLine js messages i, ''''])
           @ [''---'', ''''])
      else lines)"
  by pat_completeness auto
termination
  by (relation "measure (\<lambda>(js, messages, i, lines). length messages - i)") auto

declare messagesLoop.simps [simp del]

definition formatLines ::
  "lib \<Rightarrow> string \<Rightarrow> string list \<Rightarrow> message list \<Rightarrow> model option \<Rightarrow> string list" where
  "formatLines js timestamp system messages mdl =
     messagesLoop js messages 0
       (systemSection system (preambleLines timestamp mdl (length messages)))"

definition formatFullContext ::
  "lib \<Rightarrow> string \<Rightarrow> string list \<Rightarrow> message list \<Rightarrow> model option \<Rightarrow> string" where
  "formatFullContext js timestamp system messages mdl =
     joinLines (formatLines js timestamp system messages mdl)"

section \<open>Host, file system and plugin state\<close>

datatype error = Error (errorMessage: string)

text \<open>
  A computation that mutates a state of type \<open>'a\<close> either returns or throws, and the
  state it leaves behind is kept in both cases. A computation that never returns is
  \<open>None\<close>.
\<close>

datatype 'a completion = Returns 'a | Throws error 'a

text \<open>The state a computation leaves behind.\<close>

fun completed :: "'a completion \<Rightarrow> 'a" where
  "completed (Returns s) = s"
| "completed (Throws e s) = s"

text \<open>\<^verbatim>\<open>try { body } catch (error) { handler }\<close>\<close>

fun tryCatch ::
  "'a completion option \<Rightarrow> (error \<Rightarrow> 'a \<Rightarrow> 'a completion option) \<Rightarrow> 'a completion option" where
  "tryCatch None handler = None"
| "tryCatch (Some (Returns s)) handler = Some (Returns s)"
| "tryCatch (Some (Throws e s)) handler = handler e s"

text \<open>The files and directories the plugin can see.\<close>

record fsys =
  files :: "string \<rightharpoonup> string"
  dirs :: "string set"

text \<open>
  \<^verbatim>\<open>execSync(command, { stdio: "inherit" })\<close> blocks until the child process exits, and
  throws when it fails. The editor is a process outside the plugin: it may never exit,
  and while it runs it may change the file system.
\<close>

datatype exec_result = Hangs | Exited "error option" fsys

text \<open>
  What the platform decides during one call: the clock, \<^verbatim>\<open>process.env.EDITOR\<close>,
  \<^verbatim>\<open>os.tmpdir()\<close>, the function \<^verbatim>\<open>path.join\<close> of \<^verbatim>\<open>node:path\<close> (it normalises
  its result and uses the separator of the platform), the random suffix \<^verbatim>\<open>mkdtemp\<close>
  picks (or its failure), whether \<^verbatim>\<open>writeFile\<close> fails, and the behaviour of the editor
  process.
\<close>

record os =
  now :: string
  envEDITOR :: "string option"
  tmpdir :: string
  pathJoin :: "string \<Rightarrow> string \<Rightarrow> string"
  mkdtempResult :: "error + string"
  writeFileResult :: "error option"
  execSync :: "string \<Rightarrow> fsys \<Rightarrow> exec_result"

definition mkdtemp :: "os \<Rightarrow> string \<Rightarrow> fsys \<Rightarrow> error + string \<times> fsys" where
  "mkdtemp sys pre f =
     (case mkdtempResult sys of
        Inl e \<Rightarrow> Inl e
      | Inr random \<Rightarrow> Inr (pre @ random, f\<lparr>dirs := insert (pre @ random) (dirs f)\<rparr>))"

definition writeFile :: "os \<Rightarrow> string \<Rightarrow> string \<Rightarrow> fsys \<Rightarrow> error + fsys" where
  "writeFile sys path content f =
     (case writeFileResult sys of
        Some e \<Rightarrow> Inl e
      | None \<Rightarrow> Inr (f\<lparr>files := (files f)(path \<mapsto> content)\<rparr>))"

definition readFile :: "string \<Rightarrow> fsys \<Rightarrow> error + string" where
  "readFile path f =
     (case files f path of
        None \<Rightarrow>
          Inl (Error (''ENOENT: no such file or directory, open '' @ [CHR 0x27] @ path
                        @ [CHR 0x27]))
      | Some content \<Rightarrow> Inr content)"

definition unlink :: "string \<Rightarrow> fsys \<Rightarrow> error + fsys" where
  "unlink path f =
     (case files f path of
        None \<Rightarrow>
          Inl (Error (''ENOENT: no such file or directory, unlink '' @ [CHR 0x27] @ path
                        @ [CHR 0x27]))
      | Some content \<Rightarrow> Inr (f\<lparr>files := (files f)(path := None)\<rparr>))"

text \<open>
  The variables the plugin closes over (\<^verbatim>\<open>config\<close>, \<^verbatim>\<open>analytics\<close>,
  \<^verbatim>\<open>capturedSystem\<close>, \<^verbatim>\<open>capturedModel\<close>), the records passed to
  \<^verbatim>\<open>client.app.log\<close> so far, and the file system.
\<close>

record state =
  config :: config
  analytics :: analytics
  capturedSystem :: "string list"
  capturedModel :: "model option"
  logs :: "logrec list"
  fs :: fsys

section \<open>log\<close>

definition levels :: "string list" where
  "levels = [''debug'', ''info'', ''warn'', ''error'']"

definition log :: "string \<Rightarrow> string \<Rightarrow> jsval \<Rightarrow> state \<Rightarrow> state" where
  "log level message data st =
     (let currentLevelIndex = arrayIndexOf levels (logLevel (config st));
          messageLevelIndex = arrayIndexOf levels level
      in if messageLevelIndex \<ge> currentLevelIndex
         then st\<lparr>logs := logs st @ [\<lparr>log_level = level, log_message = message, log_extra = data\<rparr>]\<rparr>
         else st)"

section \<open>The plugin factory\<close>

text \<open>
  \<^verbatim>\<open>str.replace(/\/\/.*$/gm, "")\<close>: from each \<^verbatim>\<open>//\<close> up to the line terminator.
\<close>

definition isLineTerminator :: "char \<Rightarrow> bool" where
  "isLineTerminator c = (c = nl \<or> c = CHR 0x0D)"

function stripLineComments :: "string \<Rightarrow> string" where
  "stripLineComments [] = []"
| "stripLineComments [a] = [a]"
| "stripLineComments (a # b # cs) =
     (if a = CHR ''/'' \<and> b = CHR ''/''
      then stripLineComments (dropWhile (\<lambda>c. \<not> isLineTerminator c) cs)
      else a # stripLineComments (b # cs))"
  by pat_completeness auto
termination
  by (relation "measure length") (auto simp: less_Suc_eq_le le_SucI length_dropWhile_le)

text \<open>
  \<^verbatim>\<open>str.replace(/\/\*[\s\S]*?\*\//g, "")\<close>: from each \<^verbatim>\<open>/*\<close> through the next
  \<^verbatim>\<open>*/\<close>, when there is one.
\<close>

function stripBlockComments :: "string \<Rightarrow> string" where
  "stripBlockComments [] = []"
| "stripBlockComments [a] = [a]"
| "stripBlockComments (a # b # cs) =
     (if a = CHR ''/'' \<and> b = CHR ''*'' \<and> indexOf cs ''*/'' 0 \<noteq> - 1
      then stripBlockComments (drop (nat (indexOf cs ''*/'' 0) + 2) cs)
      else a # stripBlockComments (b # cs))"
  by pat_completeness auto
termination
  by (relation "measure length") auto

definition stripJsonComments :: "string \<Rightarrow> string" where
  "stripJsonComments str = stripBlockComments (stripLineComments str)"

text \<open>
  The object \<^verbatim>\<open>JSON.parse\<close> returns, read as configuration fields: a field the file
  does not give is \<open>None\<close>. \<^verbatim>\<open>JSON.parse\<close> belongs to the runtime and is a parameter.
\<close>

record overrides =
  o_logLevel :: "string option"
  o_enableEditor :: "bool option"
  o_editor :: "string option"
  o_autoEdit :: "bool option"
  o_showSystemMessages :: "bool option"
  o_messageTypes :: "string list option"

text \<open>\<^verbatim>\<open>{ ...config, ...loadedConfig }\<close>\<close>

definition spread :: "config \<Rightarrow> overrides \<Rightarrow> config" where
  "spread c v =
     \<lparr>logLevel = (case o_logLevel v of None \<Rightarrow> logLevel c | Some x \<Rightarrow> x),
      enableEditor = (case o_enableEditor v of None \<Rightarrow> enableEditor c | Some x \<Rightarrow> x),
      editor = (case o_editor v of None \<Rightarrow> editor c | Some x \<Rightarrow> x),
      autoEdit = (case o_autoEdit v of None \<Rightarrow> autoEdit c | Some x \<Rightarrow> x),
      showSystemMessages =
        (case o_showSystemMessages v of None \<Rightarrow> showSystemMessages c | Some x \<Rightarrow> x),
      messageTypes = (case o_messageTypes v of None \<Rightarrow> messageTypes c | Some x \<Rightarrow> x)\<rparr>"

definition defaultConfig :: "os \<Rightarrow> config" where
  "defaultConfig sys =
     \<lparr>logLevel = ''info'',
      enableEditor = True,
      editor = orElse (envEDITOR sys) ''code -w'',
      autoEdit = False,
      showSystemMessages = True,
      messageTypes = [''user'', ''assistant'']\<rparr>"

definition configValue :: "config \<Rightarrow> jsval" where
  "configValue c =
     Obj [(''logLevel'', Str (logLevel c)),
          (''enableEditor'', Bool (enableEditor c)),
          (''editor'', Str (editor c)),
          (''autoEdit'', Bool (autoEdit c)),
          (''showSystemMessages'', Bool (showSystemMessages c)),
          (''messageTypes'', Arr (map Str (messageTypes c)))]"

text \<open>
  The inner \<^verbatim>\<open>try\<close> of the factory: read \<^verbatim>\<open>.micromanager.jsonc\<close>, and on any error
  read \<^verbatim>\<open>.micromanager.json\<close> instead.
\<close>

definition readConfigData :: "os \<Rightarrow> string \<Rightarrow> fsys \<Rightarrow> error + string" where
  "readConfigData sys directory f =
     (case readFile (pathJoin sys directory ''.micromanager.jsonc'') f of
        Inr configData \<Rightarrow> Inr configData
      | Inl e \<Rightarrow> readFile (pathJoin sys directory ''.micromanager.json'') f)"

text \<open>
  The body of the outer \<^verbatim>\<open>try\<close>, on the pair of \<^verbatim>\<open>config\<close> and the host's log.
\<close>

definition loadConfig ::
  "(string \<Rightarrow> error + overrides) \<Rightarrow> os \<Rightarrow> string \<Rightarrow> fsys \<Rightarrow> config \<times> logrec list
     \<Rightarrow> (config \<times> logrec list) completion option" where
  "loadConfig parseJSON sys directory f = (\<lambda>(c, hostLog).
     (case readConfigData sys directory f of
        Inl e \<Rightarrow> Some (Throws e (c, hostLog))
      | Inr configData \<Rightarrow>
          (case parseJSON (stripJsonComments configData) of
             Inl e \<Rightarrow> Some (Throws e (c, hostLog))
           | Inr loadedConfig \<Rightarrow>
               Some (Returns (spread c loadedConfig,
                 hostLog @ [\<lparr>log_level = ''info'',
                             log_message = ''Configuration loaded from .micromanager.json'',
                             log_extra = Obj [(''config'', configValue (spread c loadedConfig))]\<rparr>])))))"

definition useDefaults ::
  "error \<Rightarrow> config \<times> logrec list \<Rightarrow> (config \<times> logrec list) completion option" where
  "useDefaults e = (\<lambda>(c, hostLog).
     Some (Returns (c,
       hostLog @ [\<lparr>log_level = ''warn'',
                   log_message = ''Using default configuration'',
                   log_extra = Obj [(''error'', Str (errorMessage e))]\<rparr>])))"

text \<open>The keys of the object the factory returns, in the order of the source.\<close>

definition hookKeys :: "string list" where
  "hookKeys =
     [''experimental.chat.system.transform'',
      ''experimental.chat.messages.transform'',
      ''chat.message'',
      ''event'',
      ''tool.execute.before'']"

text \<open>
  \<^verbatim>\<open>MessageInterceptorPlugin\<close>: the state the returned handlers close over, and the keys
  of the returned object.
\<close>

definition MessageInterceptorPlugin ::
  "(string \<Rightarrow> error + overrides) \<Rightarrow> os \<Rightarrow> string \<Rightarrow> logrec list \<Rightarrow> fsys
     \<Rightarrow> (state \<times> string list) completion option" where
  "MessageInterceptorPlugin parseJSON sys directory hostLog f =
     (case tryCatch (loadConfig parseJSON sys directory f (defaultConfig sys, hostLog))
             useDefaults of
        None \<Rightarrow> None
      | Some (Throws e (c, lg)) \<Rightarrow>
          Some (Throws e
            (\<lparr>config = c, analytics = \<lparr>messagesIntercepted = 0, messagesEdited = 0, editorSessions = 0\<rparr>,
              capturedSystem = [], capturedModel = None, logs = lg, fs = f\<rparr>, []))
      | Some (Returns (c, lg)) \<Rightarrow>
          Some (Returns
            (\<lparr>config = c, analytics = \<lparr>messagesIntercepted = 0, messagesEdited = 0, editorSessions = 0\<rparr>,
              capturedSystem = [], capturedModel = None, logs = lg, fs = f\<rparr>, hookKeys)))"

section \<open>The hook handlers\<close>

subsection \<open>experimental.chat.system.transform\<close>

text \<open>
  \<open>mdl\<close> is \<^verbatim>\<open>input.model || null\<close> and \<open>system\<close> is \<^verbatim>\<open>output.system\<close>, which the
  handler copies and does not change.
\<close>

definition systemTransform :: "model option \<Rightarrow> string list \<Rightarrow> state \<Rightarrow> state" where
  "systemTransform mdl system st =
     log ''info'' ''System prompt captured''
       (Obj [(''systemParts'', Num (int (length system))),
             (''totalLength'', Num (int (foldl (\<lambda>sum s. sum + length s) 0 system)))])
       (st\<lparr>capturedSystem := system, capturedModel := mdl\<rparr>)"

subsection \<open>experimental.chat.messages.transform\<close>

definition editableMarker :: string where
  "editableMarker = ''(Current - Editable)''"

text \<open>
  The loop over \<^verbatim>\<open>lastMsg.parts\<close> that stores \<^verbatim>\<open>newText\<close> in the first part of type
  \<^verbatim>\<open>"text"\<close> and stops. \<^verbatim>\<open>part\<close> and \<^verbatim>\<open>lastMsg.parts[i]\<close> are one object, so the
  \<^verbatim>\<open>originalLength\<close> that is logged after the assignment is the length of the new text.
\<close>

function spliceLoop :: "part list \<Rightarrow> nat \<Rightarrow> string \<Rightarrow> state \<Rightarrow> part list \<times> state" where
  "spliceLoop ps i newText st =
     (if i < length ps then
        (if part_type (ps ! i) = ''text'' then
           (ps[i := (ps ! i)\<lparr>part_text := Some newText\<rparr>],
            log ''info'' ''User message edited successfully''
              (Obj [(''originalLength'', Num (int (length newText))),
                    (''newLength'', Num (int (length newText)))])
              (st\<lparr>analytics := (analytics st)\<lparr>messagesEdited := messagesEdited (analytics st) + 1\<rparr>\<rparr>))
         else spliceLoop ps (i + 1) newText st)
      else (ps, st))"
  by pat_completeness auto
termination
  by (relation "measure (\<lambda>(ps, i, newText, st). length ps - i)") auto

declare spliceLoop.simps [simp del]

text \<open>
  The text taken from the edited file, when the marker and a line break after it are
  found.
\<close>

definition extractEdited :: "string \<Rightarrow> string option" where
  "extractEdited editedContent =
     (let markerIndex = lastIndexOf editedContent editableMarker
      in if markerIndex \<noteq> - 1 then
           (let afterMarker = indexOf editedContent [nl] (nat markerIndex)
            in if afterMarker \<noteq> - 1 then
                 (let contentAfter = drop (nat (afterMarker + 1)) editedContent;
                      contentAfter = stripLeadingNewlines contentAfter;
                      trailingSeparator = lastIndexOf contentAfter (nl # ''---'');
                      contentAfter =
                        (if trailingSeparator \<noteq> - 1
                         then take (nat trailingSeparator) contentAfter
                         else contentAfter)
                  in Some (trim contentAfter))
               else None)
         else None)"

text \<open>
  Lines 235 to 275: \<^verbatim>\<open>lastMsg\<close> is the last element of \<^verbatim>\<open>output.messages\<close>, and writing
  to one of its parts changes that element. The handler has returned before this point
  when \<^verbatim>\<open>output.messages\<close> is empty.
\<close>

definition spliceEdited :: "string \<Rightarrow> state \<times> message list \<Rightarrow> state \<times> message list" where
  "spliceEdited editedContent = (\<lambda>(st, messages).
     (case extractEdited editedContent of
        None \<Rightarrow> (st, messages)
      | Some newText \<Rightarrow>
          (let lastMsg = messages ! (length messages - 1);
               (ps, st') = spliceLoop (parts lastMsg) 0 newText st
           in (st', messages[length messages - 1 := lastMsg\<lparr>parts := ps\<rparr>]))))"

text \<open>Lines 211 to 225: format, create the directory, write the file, log.\<close>

definition tempDirPrefix :: "os \<Rightarrow> string" where
  "tempDirPrefix sys = pathJoin sys (tmpdir sys) ''opencode-message-''"

definition writeContext ::
  "lib \<Rightarrow> os \<Rightarrow> state \<times> message list \<Rightarrow> error \<times> state + string \<times> state" where
  "writeContext js sys = (\<lambda>(st, messages).
     (let formattedContext =
            formatFullContext js (now sys)
              (if showSystemMessages (config st) then capturedSystem st else [])
              messages (capturedModel st)
      in case mkdtemp sys (tempDirPrefix sys) (fs st) of
           Inl e \<Rightarrow> Inl (e, st)
         | Inr (tempDir, f1) \<Rightarrow>
             (let tempFile = pathJoin sys tempDir ''message.md''
              in case writeFile sys tempFile formattedContext f1 of
                   Inl e \<Rightarrow> Inl (e, st\<lparr>fs := f1\<rparr>)
                 | Inr f2 \<Rightarrow>
                     Inr (tempFile,
                       log ''info'' ''Opening editor for full context review''
                         (Obj [(''tempFile'', Str tempFile),
                               (''messageCount'', Num (int (length messages))),
                               (''systemParts'', Num (int (length (capturedSystem st))))])
                         (st\<lparr>fs := f2\<rparr>)))))"

text \<open>Lines 228 to 277: count the session, read the file back, splice, unlink.\<close>

definition readBack ::
  "string \<Rightarrow> state \<times> message list \<Rightarrow> (state \<times> message list) completion" where
  "readBack tempFile = (\<lambda>(st, messages).
     (let st1 = st\<lparr>analytics := (analytics st)\<lparr>editorSessions := editorSessions (analytics st) + 1\<rparr>\<rparr>
      in case readFile tempFile (fs st1) of
           Inl e \<Rightarrow> Throws e (st1, messages)
         | Inr editedContent \<Rightarrow>
             (let (st2, messages2) = spliceEdited editedContent (st1, messages)
              in case unlink tempFile (fs st2) of
                   Inl e \<Rightarrow> Throws e (st2, messages2)
                 | Inr f \<Rightarrow> Returns (st2\<lparr>fs := f\<rparr>, messages2))))"

text \<open>The body of the \<^verbatim>\<open>try\<close> block, lines 211 to 277.\<close>

definition editorRoundTrip ::
  "lib \<Rightarrow> os \<Rightarrow> state \<times> message list \<Rightarrow> (state \<times> message list) completion option" where
  "editorRoundTrip js sys = (\<lambda>(st, messages).
     (case writeContext js sys (st, messages) of
        Inl (e, st1) \<Rightarrow> Some (Throws e (st1, messages))
      | Inr (tempFile, st1) \<Rightarrow>
          (case execSync sys (editor (config st1) @ '' '' @ tempFile) (fs st1) of
             Hangs \<Rightarrow> None
           | Exited (Some e) f \<Rightarrow> Some (Throws e (st1\<lparr>fs := f\<rparr>, messages))
           | Exited None f \<Rightarrow> Some (readBack tempFile (st1\<lparr>fs := f\<rparr>, messages)))))"

text \<open>The \<^verbatim>\<open>catch\<close> block, line 279.\<close>

definition failedToEdit ::
  "error \<Rightarrow> state \<times> message list \<Rightarrow> (state \<times> message list) completion option" where
  "failedToEdit e = (\<lambda>(st, messages).
     Some (Returns
       (log ''error'' ''Failed to edit message'' (Obj [(''error'', Str (errorMessage e))]) st,
        messages)))"

text \<open>
  The handler. The copy \<^verbatim>\<open>messages\<close> it makes of \<^verbatim>\<open>output.messages\<close> keeps the role and
  the parts of each element, which is all a \<^typ>\<open>message\<close> holds here.
\<close>

definition messagesTransform ::
  "lib \<Rightarrow> os \<Rightarrow> state \<times> message list \<Rightarrow> (state \<times> message list) completion option" where
  "messagesTransform js sys = (\<lambda>(st, messages).
     (let st1 = st\<lparr>analytics :=
                  (analytics st)\<lparr>messagesIntercepted := messagesIntercepted (analytics st) + 1\<rparr>\<rparr>;
          st2 = log ''info'' ''Full message context captured''
                  (Obj [(''messageCount'', Num (int (length messages))),
                        (''systemAvailable'', Bool (length (capturedSystem st1) > 0))])
                  st1
      in if \<not> enableEditor (config st2) \<or> \<not> autoEdit (config st2) then
           Some (Returns (st2, messages))
         else if messages = [] then
           Some (Returns (st2, messages))
         else if \<not> list_ex (\<lambda>p. part_type p = ''text'') (parts (last messages)) then
           Some (Returns (st2, messages))
         else
           tryCatch (editorRoundTrip js sys (st2, messages)) failedToEdit))"

subsection \<open>chat.message, event and tool.execute.before\<close>

definition chatMessage :: "string \<Rightarrow> string option \<Rightarrow> part list \<Rightarrow> state \<Rightarrow> state" where
  "chatMessage sessionID agent outputParts st =
     log ''debug'' ''chat.message fired''
       (Obj [(''sessionID'', Str sessionID),
             (''agent'', (case agent of None \<Rightarrow> Undefined | Some a \<Rightarrow> Str a)),
             (''partsCount'', Num (int (length outputParts)))])
       st"

definition event :: "os \<Rightarrow> string \<Rightarrow> state \<Rightarrow> state" where
  "event sys eventType st =
     (if eventType = ''session.created'' then
        (log ''info'' ''New session started'' (Obj [(''timestamp'', Str (now sys))]) st)
          \<lparr>analytics := \<lparr>messagesIntercepted = 0, messagesEdited = 0, editorSessions = 0\<rparr>\<rparr>
      else st)"

definition toolExecuteBefore :: "string \<Rightarrow> string \<Rightarrow> string \<Rightarrow> state \<Rightarrow> state" where
  "toolExecuteBefore tool sessionID callID st =
     log ''debug'' ''Tool execution intercepted''
       (Obj [(''tool'', Str tool), (''sessionID'', Str sessionID), (''callID'', Str callID)])
       st"

subsection \<open>Calls of the host\<close>

text \<open>
  One call of a registered handler with its arguments; for
  \<^verbatim>\<open>experimental.chat.messages.transform\<close> the argument is \<^verbatim>\<open>output.messages\<close>.
\<close>

datatype call =
    SystemTransform "model option" "string list"
  | MessagesTransform "message list"
  | ChatMessage string "string option" "part list"
  | Event string
  | ToolExecuteBefore string string string

fun hookKey :: "call \<Rightarrow> string" where
  "hookKey (SystemTransform mdl system) = ''experimental.chat.system.transform''"
| "hookKey (MessagesTransform messages) = ''experimental.chat.messages.transform''"
| "hookKey (ChatMessage sessionID agent outputParts) = ''chat.message''"
| "hookKey (Event eventType) = ''event''"
| "hookKey (ToolExecuteBefore tool sessionID callID) = ''tool.execute.before''"

text \<open>
  Running a call: the state afterwards and, for the messages handler, the message list
  it leaves in \<^verbatim>\<open>output.messages\<close>.
\<close>

fun invoke :: "lib \<Rightarrow> os \<Rightarrow> call \<Rightarrow> state \<Rightarrow> (state \<times> message list) completion option" where
  "invoke js sys (SystemTransform mdl system) st = Some (Returns (systemTransform mdl system st, []))"
| "invoke js sys (MessagesTransform messages) st = messagesTransform js sys (st, messages)"
| "invoke js sys (ChatMessage sessionID agent outputParts) st =
     Some (Returns (chatMessage sessionID agent outputParts st, []))"
| "invoke js sys (Event eventType) st = Some (Returns (event sys eventType st, []))"
| "invoke js sys (ToolExecuteBefore tool sessionID callID) st =
     Some (Returns (toolExecuteBefore tool sessionID callID st, []))"

text \<open>
  A sequence of calls, each with what the operating system does during it. The
  sequence stops at a call that never returns.
\<close>

fun invokeAll :: "lib \<Rightarrow> (os \<times> call) list \<Rightarrow> state \<Rightarrow> state option" where
  "invokeAll js [] st = Some st"
| "invokeAll js ((sys, c) # cs) st =
     (case invoke js sys c st of
        None \<Rightarrow> None
      | Some (Returns (st', messages)) \<Rightarrow> invokeAll js cs st'
      | Some (Throws e (st', messages)) \<Rightarrow> invokeAll js cs st')"

section \<open>Notions of the specification\<close>

text \<open>
  The specification speaks of the last occurrence of a substring, of the lines of a
  document and of what the editor left in the file. The definitions below follow its
  words; they are compared with the code in the theorems.
\<close>

text \<open>
  The text before the last occurrence of \<open>pat\<close> in \<open>s\<close> and the text from that
  occurrence on; \<open>None\<close> when \<open>pat\<close> does not occur.
\<close>

fun spec_splitAtLast :: "string \<Rightarrow> string \<Rightarrow> (string \<times> string) option" where
  "spec_splitAtLast pat [] = (if pat = [] then Some ([], []) else None)"
| "spec_splitAtLast pat (c # cs) =
     (case spec_splitAtLast pat cs of
        Some (before, rest) \<Rightarrow> Some (c # before, rest)
      | None \<Rightarrow> if prefix pat (c # cs) then Some ([], c # cs) else None)"

text \<open>
  The replacement text as the specification describes it: everything after the first
  line break that follows the last occurrence of the marker, without its leading empty
  lines, cut before the last \<^verbatim>\<open>"\n---"\<close> when there is one, and trimmed.
\<close>

definition spec_editedText :: "string \<Rightarrow> string" where
  "spec_editedText content =
     (let fromMarker = (case spec_splitAtLast editableMarker content of
                          None \<Rightarrow> [] | Some (before, rest) \<Rightarrow> rest);
          afterNewline = drop 1 (dropWhile (\<lambda>c. c \<noteq> nl) fromMarker);
          stripped = dropWhile (\<lambda>c. c = nl) afterNewline;
          truncated = (case spec_splitAtLast (nl # ''---'') stripped of
                         None \<Rightarrow> stripped | Some (before, rest) \<Rightarrow> before)
      in trim truncated)"

text \<open>A line break follows the last occurrence of the marker.\<close>

definition spec_newlineAfterMarker :: "string \<Rightarrow> bool" where
  "spec_newlineAfterMarker content =
     (case spec_splitAtLast editableMarker content of
        None \<Rightarrow> False | Some (before, rest) \<Rightarrow> nl \<in> set rest)"

text \<open>The position and the text of the first part of type \<^verbatim>\<open>"text"\<close>.\<close>

definition spec_firstTextIndex :: "part list \<Rightarrow> nat" where
  "spec_firstTextIndex ps = length (takeWhile (\<lambda>p. part_type p \<noteq> ''text'') ps)"

definition spec_firstText :: "part list \<Rightarrow> string option option" where
  "spec_firstText ps = map_option part_text (find (\<lambda>p. part_type p = ''text'') ps)"

text \<open>
  The message list in which the first part of type \<^verbatim>\<open>"text"\<close> of the last message has
  the text \<open>t\<close> and nothing else differs.
\<close>

definition spec_spliced :: "message list \<Rightarrow> string \<Rightarrow> message list" where
  "spec_spliced messages t =
     (let lastMsg = last messages;
          k = spec_firstTextIndex (parts lastMsg)
      in messages[length messages - 1 :=
           lastMsg\<lparr>parts := (parts lastMsg)[k := (parts lastMsg ! k)\<lparr>part_text := Some t\<rparr>]\<rparr>])"

text \<open>
  The editor round trip succeeds: the handler gets as far as the editor, the directory
  and the file are written, the editor exits without an error and the file can be read
  back. \<open>spec_editedFile\<close> is then what the file holds.
\<close>

definition spec_editedFile :: "lib \<Rightarrow> os \<Rightarrow> state \<Rightarrow> message list \<Rightarrow> string option" where
  "spec_editedFile js sys st messages =
     (if enableEditor (config st) \<and> autoEdit (config st) \<and> messages \<noteq> []
         \<and> list_ex (\<lambda>p. part_type p = ''text'') (parts (last messages))
      then
        (case writeContext js sys (st, messages) of
           Inl (e, st1) \<Rightarrow> None
         | Inr (tempFile, st1) \<Rightarrow>
             (case execSync sys (editor (config st) @ '' '' @ tempFile) (fs st1) of
                Exited None f \<Rightarrow> files f tempFile
              | _ \<Rightarrow> None))
      else None)"

text \<open>
  \<^verbatim>\<open>output.messages\<close> when the handler has completed; \<open>None\<close> when it never does.
\<close>

definition resultMessages ::
  "(state \<times> message list) completion option \<Rightarrow> message list option" where
  "resultMessages r = map_option (\<lambda>c. snd (completed c)) r"

text \<open>
  The document in the temporary file at the moment the editor is started; \<open>None\<close> when
  the handler does not get as far as the editor.
\<close>

definition spec_writtenDocument :: "lib \<Rightarrow> os \<Rightarrow> state \<Rightarrow> message list \<Rightarrow> string option" where
  "spec_writtenDocument js sys st messages =
     (if enableEditor (config st) \<and> autoEdit (config st) \<and> messages \<noteq> []
         \<and> list_ex (\<lambda>p. part_type p = ''text'') (parts (last messages))
      then
        (case writeContext js sys (st, messages) of
           Inl (e, st1) \<Rightarrow> None
         | Inr (tempFile, st1) \<Rightarrow> files (fs st1) tempFile)
      else None)"

text \<open>
  The state in which the handler enters its \<^verbatim>\<open>try\<close> block: the counter is incremented
  and the capture is logged.
\<close>

definition spec_tryEntry :: "state \<Rightarrow> message list \<Rightarrow> state" where
  "spec_tryEntry st messages =
     log ''info'' ''Full message context captured''
       (Obj [(''messageCount'', Num (int (length messages))),
             (''systemAvailable'', Bool (length (capturedSystem st) > 0))])
       (st\<lparr>analytics :=
            (analytics st)\<lparr>messagesIntercepted := messagesIntercepted (analytics st) + 1\<rparr>\<rparr>)"

text \<open>
  Whether a directory exists, and what a file holds, when a handler has completed;
  \<open>None\<close> when it never does.
\<close>

definition dirExistsAfter ::
  "string \<Rightarrow> (state \<times> message list) completion option \<Rightarrow> bool option" where
  "dirExistsAfter d r = map_option (\<lambda>c. d \<in> dirs (fs (fst (completed c)))) r"

definition fileAfter ::
  "string \<Rightarrow> (state \<times> message list) completion option \<Rightarrow> string option option" where
  "fileAfter path r = map_option (\<lambda>c. files (fs (fst (completed c))) path) r"

text \<open>The lines of a document: the pieces between its line breaks.\<close>

fun spec_lines :: "string \<Rightarrow> string list" where
  "spec_lines [] = [[]]"
| "spec_lines (c # cs) =
     (if c = nl then [] # spec_lines cs
      else (case spec_lines cs of [] \<Rightarrow> [[c]] | l # ls \<Rightarrow> (c # l) # ls))"

text \<open>The header of message \<open>i\<close> without the suffix: \<^verbatim>\<open>## [i+1/N] ROLE\<close>.\<close>

definition spec_header :: "lib \<Rightarrow> message list \<Rightarrow> nat \<Rightarrow> string" where
  "spec_header js messages i =
     ''## ['' @ showNat (i + 1) @ ''/'' @ showNat (length messages) @ ''] ''
       @ toUpperCase js (role (messages ! i))"

text \<open>The header with the suffix on the last message when its role is \<^verbatim>\<open>"user"\<close>.\<close>

definition spec_headerLine :: "lib \<Rightarrow> message list \<Rightarrow> nat \<Rightarrow> string" where
  "spec_headerLine js messages i =
     spec_header js messages i
       @ (if i + 1 = length messages \<and> role (messages ! i) = ''user''
          then editableSuffix else [])"

text \<open>
  Upper-casing leaves none of the letters \<open>a\<close> to \<open>z\<close> in its result, as
  \<^verbatim>\<open>String.prototype.toUpperCase\<close> does.
\<close>

definition spec_upperCases :: "lib \<Rightarrow> bool" where
  "spec_upperCases js =
     (\<forall>s. list_all (\<lambda>c. (of_char c :: nat) < 97 \<or> 122 < (of_char c :: nat))
            (toUpperCase js s))"

text \<open>The lines \<open>partsLoop\<close> pushes for the parts of message \<open>i\<close>.\<close>

definition spec_partLines :: "lib \<Rightarrow> message list \<Rightarrow> nat \<Rightarrow> string list" where
  "spec_partLines js messages i = partsLoop js (parts (messages ! i)) []"

text \<open>The section that lists the system strings.\<close>

definition spec_systemSection :: "string list \<Rightarrow> string list" where
  "spec_systemSection system =
     [''## System Prompt'', []] @ concat (map (\<lambda>s. [s, []]) system) @ [''---'', []]"

text \<open>
  Some earlier call of \<^verbatim>\<open>experimental.chat.system.transform\<close> had a non-empty
  \<^verbatim>\<open>output.system\<close>; and the \<^verbatim>\<open>output.system\<close> of the most recent such call (empty when
  there was none).
\<close>

fun capturesNonEmpty :: "call \<Rightarrow> bool" where
  "capturesNonEmpty (SystemTransform mdl system) = (system \<noteq> [])"
| "capturesNonEmpty c = False"

definition spec_someCaptured :: "(os \<times> call) list \<Rightarrow> bool" where
  "spec_someCaptured calls = list_ex (\<lambda>(sys, c). capturesNonEmpty c) calls"

fun spec_lastCaptured :: "(os \<times> call) list \<Rightarrow> string list" where
  "spec_lastCaptured [] = []"
| "spec_lastCaptured ((sys, c) # cs) =
     (if list_ex (\<lambda>(sys, c). hookKey c = ''experimental.chat.system.transform'') cs
      then spec_lastCaptured cs
      else (case c of SystemTransform mdl system \<Rightarrow> system | _ \<Rightarrow> []))"

text \<open>The editor process exits, whatever it is started on.\<close>

definition editorExits :: "os \<Rightarrow> bool" where
  "editorExits sys = (\<forall>command f. execSync sys command f \<noteq> Hangs)"

section \<open>Sample inputs\<close>

text \<open>
  Upper-casing of ASCII strings, which is what \<^verbatim>\<open>toUpperCase\<close> does on them; the roles
  of the samples are ASCII.
\<close>

definition upperAsciiChar :: "char \<Rightarrow> char" where
  "upperAsciiChar c =
     (if 97 \<le> (of_char c :: nat) \<and> (of_char c :: nat) \<le> 122
      then char_of ((of_char c :: nat) - 32) else c)"

definition upperAscii :: "string \<Rightarrow> string" where
  "upperAscii s = map upperAsciiChar s"

definition sampleLib :: lib where
  "sampleLib =
     \<lparr>stringify = (\<lambda>v. ''null''), stringifyPart = (\<lambda>p. ''{}''), toUpperCase = upperAscii\<rparr>"

text \<open>
  The sample paths are normalised POSIX paths, which \<^verbatim>\<open>path.join\<close> joins with a
  slash.
\<close>

definition joinWithSlash :: "string \<Rightarrow> string \<Rightarrow> string" where
  "joinWithSlash a b = a @ ''/'' @ b"

text \<open>
  Editor processes: one that is closed without saving, one that saves a given text in a
  given file, one that exits with a failure, and one that is never closed.
\<close>

definition editorClosed :: "string \<Rightarrow> fsys \<Rightarrow> exec_result" where
  "editorClosed command f = Exited None f"

definition editorSaves :: "string \<Rightarrow> string \<Rightarrow> string \<Rightarrow> fsys \<Rightarrow> exec_result" where
  "editorSaves path content command f = Exited None (f\<lparr>files := (files f)(path \<mapsto> content)\<rparr>)"

definition editorFails :: "string \<Rightarrow> fsys \<Rightarrow> exec_result" where
  "editorFails command f = Exited (Some (Error ''Command failed'')) f"

definition editorNeverExits :: "string \<Rightarrow> fsys \<Rightarrow> exec_result" where
  "editorNeverExits command f = Hangs"

definition sampleOs :: "(string \<Rightarrow> fsys \<Rightarrow> exec_result) \<Rightarrow> os" where
  "sampleOs ed =
     \<lparr>now = ''2024-05-01T12:00:00.000Z'', envEDITOR = None, tmpdir = ''/tmp'',
      pathJoin = joinWithSlash,
      mkdtempResult = Inr ''Ab3xYz'', writeFileResult = None, execSync = ed\<rparr>"

definition sampleTempDir :: string where
  "sampleTempDir = ''/tmp/opencode-message-Ab3xYz''"

definition sampleTempFile :: string where
  "sampleTempFile = ''/tmp/opencode-message-Ab3xYz/message.md''"

definition sampleConfig :: config where
  "sampleConfig =
     \<lparr>logLevel = ''info'', enableEditor = True, editor = ''code -w'', autoEdit = True,
      showSystemMessages = True, messageTypes = [''user'', ''assistant'']\<rparr>"

definition sampleState :: state where
  "sampleState =
     \<lparr>config = sampleConfig,
      analytics = \<lparr>messagesIntercepted = 0, messagesEdited = 0, editorSessions = 0\<rparr>,
      capturedSystem = [], capturedModel = None, logs = [],
      fs = \<lparr>files = Map.empty, dirs = {''/tmp''}\<rparr>\<rparr>"

definition textPart :: "string \<Rightarrow> part" where
  "textPart t =
     \<lparr>part_type = ''text'', part_text = Some t, part_tool = None, part_name = None,
      part_input = Undefined, part_output = Undefined\<rparr>"

text \<open>
  A project directory without configuration files: the parser is not reached, and the
  factory returns the default configuration.
\<close>

definition sampleParse :: "string \<Rightarrow> error + overrides" where
  "sampleParse str = Inl (Error ''Unexpected end of JSON input'')"

definition missingConfig :: error where
  "missingConfig =
     Error (''ENOENT: no such file or directory, open '' @ [CHR 0x27]
              @ ''/project/.micromanager.json'' @ [CHR 0x27])"

definition factoryDefaults :: state where
  "factoryDefaults =
     \<lparr>config = defaultConfig (sampleOs editorClosed),
      analytics = \<lparr>messagesIntercepted = 0, messagesEdited = 0, editorSessions = 0\<rparr>,
      capturedSystem = [], capturedModel = None,
      logs = [\<lparr>log_level = ''warn'', log_message = ''Using default configuration'',
               log_extra = Obj [(''error'', Str (errorMessage missingConfig))]\<rparr>],
      fs = \<lparr>files = Map.empty, dirs = {''/tmp''}\<rparr>\<rparr>"

text \<open>A file in which nothing follows the marker.\<close>

definition markerAtEnd :: string where
  "markerAtEnd = ''## [1/1] USER (Current - Editable)''"

text \<open>A file as the user may save it: the header, the new text, the separator.\<close>

definition editedSample :: string where
  "editedSample =
     ''## [1/1] USER (Current - Editable)'' @ [nl, nl] @ ''  hello there '' @ [nl, nl]
       @ ''---'' @ [nl]"

definition toolPart :: "string \<Rightarrow> part" where
  "toolPart t =
     \<lparr>part_type = ''tool'', part_text = None, part_tool = Some t, part_name = None,
      part_input = Undefined, part_output = Str ''done''\<rparr>"

text \<open>Two messages; the last one has a tool part and two text parts.\<close>

definition sampleHistory :: "message list" where
  "sampleHistory =
     [\<lparr>role = ''assistant'', parts = [textPart ''earlier'']\<rparr>,
      \<lparr>role = ''user'', parts = [toolPart ''bash'', textPart ''hi'', textPart ''more'']\<rparr>]"

text \<open>
  Two calls of \<^verbatim>\<open>experimental.chat.system.transform\<close>, the second with an empty
  \<^verbatim>\<open>output.system\<close>, and the state after them.
\<close>

definition twoCaptures :: "(os \<times> call) list" where
  "twoCaptures =
     [(sampleOs editorClosed, SystemTransform None [''Be brief.'']),
      (sampleOs editorClosed, SystemTransform None [])]"

definition afterTwoCaptures :: state where
  "afterTwoCaptures = systemTransform None [] (systemTransform None [''Be brief.''] sampleState)"

text \<open>
  A state in which \<^verbatim>\<open>config.showSystemMessages\<close> is false and one system string is
  captured, and a message whose text spells out a system prompt section.
\<close>

definition hiddenSystemState :: state where
  "hiddenSystemState =
     systemTransform None [''S'']
       (sampleState\<lparr>config := sampleConfig\<lparr>showSystemMessages := False\<rparr>\<rparr>)"

definition sectionInText :: "message list" where
  "sectionInText =
     [\<lparr>role = ''user'',
       parts = [textPart (''## System Prompt'' @ [nl, nl] @ ''S'' @ [nl, nl] @ ''---'')]\<rparr>]"

definition oneCapture :: "(os \<times> call) list" where
  "oneCapture = [(sampleOs editorClosed, SystemTransform None [''Be brief.''])]"

definition afterOneCapture :: state where
  "afterOneCapture = systemTransform None [''Be brief.''] sampleState"

definition sampleMessages :: "message list" where
  "sampleMessages = [\<lparr>role = ''user'', parts = [textPart ''hi'']\<rparr>]"

section \<open>Properties of log\<close>

lemma arrayIndexOf_ge: "- 1 \<le> arrayIndexOf xs x"
  by (induction xs) (auto simp: Let_def)

lemma arrayIndexOf_absent: "x \<notin> set xs \<Longrightarrow> arrayIndexOf xs x = - 1"
  by (induction xs) (auto simp: Let_def)

text \<open>
  Claim C10. A call of \<open>log\<close> passes a record to the host exactly when the index of its
  level in \<^verbatim>\<open>["debug", "info", "warn", "error"]\<close> is at least the index of
  \<^verbatim>\<open>config.logLevel\<close>, and otherwise passes nothing; when \<^verbatim>\<open>config.logLevel\<close> is not
  one of the four strings, every call passes its record.
\<close>

theorem log_emits_iff:
  "(logs (log level message data st)
      = logs st @ [\<lparr>log_level = level, log_message = message, log_extra = data\<rparr>]
    \<longleftrightarrow> arrayIndexOf levels level \<ge> arrayIndexOf levels (logLevel (config st)))
   \<and> (logs (log level message data st) = logs st
    \<longleftrightarrow> arrayIndexOf levels level < arrayIndexOf levels (logLevel (config st)))
   \<and> (logLevel (config st) \<notin> set levels \<longrightarrow>
        logs (log level message data st)
          = logs st @ [\<lparr>log_level = level, log_message = message, log_extra = data\<rparr>])"
  using arrayIndexOf_ge [of levels level] arrayIndexOf_absent [of "logLevel (config st)" levels]
  by (auto simp: log_def Let_def)

theorem log_emits_iff_witness:
  "logLevel (config (sampleState\<lparr>config := sampleConfig\<lparr>logLevel := ''verbose''\<rparr>\<rparr>)) \<notin> set levels
   \<and> logs (log ''debug'' ''chat.message fired'' Null
             (sampleState\<lparr>config := sampleConfig\<lparr>logLevel := ''verbose''\<rparr>\<rparr>))
       = [\<lparr>log_level = ''debug'', log_message = ''chat.message fired'', log_extra = Null\<rparr>]
   \<and> arrayIndexOf levels ''debug'' < arrayIndexOf levels (logLevel (config sampleState))
   \<and> logs (log ''debug'' ''chat.message fired'' Null sampleState) = logs sampleState"
proof -
  have absent:
    "logLevel (config (sampleState\<lparr>config := sampleConfig\<lparr>logLevel := ''verbose''\<rparr>\<rparr>)) \<notin> set levels"
    by (simp add: levels_def)
  have below: "arrayIndexOf levels ''debug'' < arrayIndexOf levels (logLevel (config sampleState))"
    by (simp add: levels_def sampleState_def sampleConfig_def)
  show ?thesis
    using absent below
      log_emits_iff [of "''debug''" "''chat.message fired''" Null
        "sampleState\<lparr>config := sampleConfig\<lparr>logLevel := ''verbose''\<rparr>\<rparr>"]
      log_emits_iff [of "''debug''" "''chat.message fired''" Null sampleState]
    by (simp add: sampleState_def)
qed

section \<open>Searching in strings\<close>

lemma occursAt_prefix: "occursAt pat s k \<longleftrightarrow> prefix pat (drop k s)"
  unfolding occursAt_def
  by (metis append_take_drop_id prefix_def append_eq_conv_conj)

lemma occursAt_Cons_Suc [simp]: "occursAt pat (c # cs) (Suc k) = occursAt pat cs k"
  by (simp add: occursAt_def)

lemma occursAt_0: "occursAt pat s 0 \<longleftrightarrow> prefix pat s"
  by (simp add: occursAt_prefix)

lemma find_rev_upt_None:
  "find P (rev [0 ..< n]) = None \<longleftrightarrow> (\<forall>j < n. \<not> P j)"
  by (induction n) (auto simp: less_Suc_eq)

lemma find_rev_upt_Some:
  "find P (rev [0 ..< n]) = Some k \<longleftrightarrow> k < n \<and> P k \<and> (\<forall>j. k < j \<and> j < n \<longrightarrow> \<not> P j)"
proof (induction n)
  case 0
  then show ?case by simp
next
  case (Suc n)
  show ?case
  proof (cases "P n")
    case True
    then show ?thesis by (auto simp: less_Suc_eq intro: linorder_neqE_nat)
  next
    case False
    then show ?thesis using Suc by (auto simp: less_Suc_eq)
  qed
qed

lemma find_upt_None:
  "find P [i ..< n] = None \<longleftrightarrow> (\<forall>j. i \<le> j \<and> j < n \<longrightarrow> \<not> P j)"
  by (auto simp: find_None_iff)

lemma find_upt_first:
  "i \<le> m \<Longrightarrow> m < n \<Longrightarrow> P m \<Longrightarrow> (\<forall>j. i \<le> j \<and> j < m \<longrightarrow> \<not> P j) \<Longrightarrow> find P [i ..< n] = Some m"
proof (induction "m - i" arbitrary: i)
  case 0
  then have "i = m" by simp
  with 0 show ?case by (simp add: upt_conv_Cons)
next
  case (Suc d)
  then have lt: "i < m" and notP: "\<not> P i" by auto
  have "find P [Suc i ..< n] = Some m"
    using Suc(1) [of "Suc i"] Suc(2-) lt by auto
  with lt notP Suc.prems(2) show ?case by (simp add: upt_conv_Cons)
qed

lemma spec_splitAtLast_None:
  "spec_splitAtLast pat s = None \<longleftrightarrow> (\<forall>j \<le> length s. \<not> occursAt pat s j)"
proof (induction s)
  case Nil
  then show ?case by (auto simp: occursAt_def)
next
  case (Cons c cs)
  have shift: "(\<forall>j \<le> length (c # cs). \<not> occursAt pat (c # cs) j)
        \<longleftrightarrow> \<not> occursAt pat (c # cs) 0 \<and> (\<forall>j \<le> length cs. \<not> occursAt pat cs j)"
    (is "?L \<longleftrightarrow> ?R")
  proof
    assume l: ?L
    have "\<not> occursAt pat cs j" if "j \<le> length cs" for j
      using l [rule_format, of "Suc j"] that by simp
    with l show ?R by auto
  next
    assume r: ?R
    show ?L
    proof (intro allI impI)
      fix j assume "j \<le> length (c # cs)"
      then show "\<not> occursAt pat (c # cs) j" using r by (cases j) auto
    qed
  qed
  show ?case
  proof (cases "spec_splitAtLast pat cs")
    case None
    with Cons show ?thesis unfolding shift by (simp add: occursAt_0)
  next
    case (Some br)
    with Cons show ?thesis unfolding shift by (cases br) auto
  qed
qed

lemma spec_splitAtLast_Some:
  "spec_splitAtLast pat s = Some (b, r) \<Longrightarrow>
     s = b @ r \<and> occursAt pat s (length b)
     \<and> (\<forall>j. length b < j \<and> j \<le> length s \<longrightarrow> \<not> occursAt pat s j)"
proof (induction s arbitrary: b r)
  case Nil
  then show ?case by (auto simp: occursAt_def split: if_splits)
next
  case (Cons c cs)
  show ?case
  proof (cases "spec_splitAtLast pat cs")
    case None
    with Cons.prems have p: "prefix pat (c # cs)" and b: "b = []" and r: "r = c # cs"
      by (auto split: if_splits)
    from None have no: "\<forall>j \<le> length cs. \<not> occursAt pat cs j"
      by (simp add: spec_splitAtLast_None)
    have "\<not> occursAt pat (c # cs) j" if "0 < j" "j \<le> length (c # cs)" for j
      using that no by (cases j) auto
    then show ?thesis using p b r by (auto simp: occursAt_0)
  next
    case (Some br)
    obtain b' r' where br: "br = (b', r')" by (cases br)
    with Some Cons.prems have b: "b = c # b'" and r: "r = r'" by auto
    from Cons.IH [of b' r'] Some br
    have IH: "cs = b' @ r'" "occursAt pat cs (length b')"
      "\<forall>j. length b' < j \<and> j \<le> length cs \<longrightarrow> \<not> occursAt pat cs j" by auto
    have "\<not> occursAt pat (c # cs) j" if "length b < j" "j \<le> length (c # cs)" for j
      using that IH(3) b by (cases j) auto
    then show ?thesis using IH(1,2) b r by auto
  qed
qed

lemma lastIndexOf_spec:
  "lastIndexOf s pat = (case spec_splitAtLast pat s of None \<Rightarrow> - 1 | Some (b, r) \<Rightarrow> int (length b))"
proof (cases "spec_splitAtLast pat s")
  case None
  then have "find (occursAt pat s) (rev [0 ..< Suc (length s)]) = None"
    by (simp add: spec_splitAtLast_None find_rev_upt_None less_Suc_eq_le)
  then show ?thesis using None by (simp add: lastIndexOf_def)
next
  case (Some br)
  obtain b r where br: "br = (b, r)" by (cases br)
  from spec_splitAtLast_Some [of pat s b r] Some br
  have f: "s = b @ r" "occursAt pat s (length b)"
    "\<forall>j. length b < j \<and> j \<le> length s \<longrightarrow> \<not> occursAt pat s j" by auto
  have "find (occursAt pat s) (rev [0 ..< Suc (length s)]) = Some (length b)"
    unfolding find_rev_upt_Some using f by (auto simp: less_Suc_eq_le)
  then show ?thesis using Some br by (simp add: lastIndexOf_def)
qed

lemma spec_splitAtLast_sublist:
  "spec_splitAtLast pat s \<noteq> None \<longleftrightarrow> sublist pat s"
proof (induction s)
  case Nil
  then show ?case by simp
next
  case (Cons c cs)
  then show ?case
    by (cases "spec_splitAtLast pat cs") (auto simp: sublist_Cons_right)
qed

lemma length_takeWhile_lt: "x \<in> set xs \<Longrightarrow> \<not> P x \<Longrightarrow> length (takeWhile P xs) < length xs"
  by (induction xs) auto

lemma occursAt_single: "occursAt [c] s k \<longleftrightarrow> k < length s \<and> s ! k = c"
proof (cases "k < length s")
  case True
  then show ?thesis
    by (auto simp: occursAt_def take_Suc_conv_app_nth hd_drop_conv_nth Cons_nth_drop_Suc [symmetric])
next
  case False
  then show ?thesis by (simp add: occursAt_def)
qed

lemma indexOf_char:
  "indexOf s [c] k =
     (if c \<in> set (drop k s) then int (k + length (takeWhile (\<lambda>x. x \<noteq> c) (drop k s))) else - 1)"
proof (cases "c \<in> set (drop k s)")
  case False
  have "\<not> occursAt [c] s j" if "k \<le> j" for j
  proof
    assume "occursAt [c] s j"
    then have "j < length s" "s ! j = c" by (auto simp: occursAt_single)
    with that have "j - k < length (drop k s)" "drop k s ! (j - k) = c" by auto
    then have "c \<in> set (drop k s)" by (metis nth_mem)
    with False show False by simp
  qed
  then have none: "find (occursAt [c] s) [k ..< Suc (length s)] = None"
    using find_upt_None [of "occursAt [c] s" k "Suc (length s)"] by blast
  have "indexOf s [c] k = - 1"
    by (simp only: indexOf_def none option.simps)
  with False show ?thesis by (simp only: if_False)
next
  case True
  define xs where "xs = drop k s"
  define t where "t = takeWhile (\<lambda>x. x \<noteq> c) xs"
  have lt: "length t < length xs"
    unfolding t_def using True length_takeWhile_lt [of c xs "\<lambda>x. x \<noteq> c"] xs_def by blast
  have at: "xs ! length t = c"
    using nth_length_takeWhile [of "\<lambda>x. x \<noteq> c" xs] lt unfolding t_def by blast
  have before: "xs ! j \<noteq> c" if "j < length t" for j
  proof -
    have "t ! j \<in> set t" using that by simp
    then have "t ! j \<noteq> c" unfolding t_def by (blast dest: set_takeWhileD)
    moreover have "t ! j = xs ! j" using that unfolding t_def by (rule takeWhile_nth)
    ultimately show ?thesis by simp
  qed
  have len: "length xs = length s - k" by (simp add: xs_def)
  have kl: "k + length t < length s" using lt len by linarith
  have nth: "xs ! i = s ! (k + i)" if "k + i < length s" for i
    using that by (simp add: xs_def)
  have found: "find (occursAt [c] s) [k ..< Suc (length s)] = Some (k + length t)"
  proof (rule find_upt_first)
    show "k \<le> k + length t" by simp
    show "k + length t < Suc (length s)" using kl by simp
    show "occursAt [c] s (k + length t)" using at kl nth [of "length t"] by (simp add: occursAt_single)
    show "\<forall>j. k \<le> j \<and> j < k + length t \<longrightarrow> \<not> occursAt [c] s j"
    proof (intro allI impI)
      fix j assume j: "k \<le> j \<and> j < k + length t"
      then have "xs ! (j - k) \<noteq> c" using before [of "j - k"] by linarith
      moreover have "xs ! (j - k) = s ! j" using j kl nth [of "j - k"] by simp
      ultimately show "\<not> occursAt [c] s j" by (simp add: occursAt_single)
    qed
  qed
  have "indexOf s [c] k = int (k + length t)"
    by (simp only: indexOf_def found option.simps)
  with True show ?thesis by (simp only: if_True t_def xs_def)
qed

lemma cut_spec:
  "(if lastIndexOf x pat \<noteq> - 1 then take (nat (lastIndexOf x pat)) x else x)
     = (case spec_splitAtLast pat x of None \<Rightarrow> x | Some (before, rest) \<Rightarrow> before)"
proof (cases "spec_splitAtLast pat x")
  case None
  then show ?thesis by (simp add: lastIndexOf_spec)
next
  case (Some br)
  obtain b r where br: "br = (b, r)" by (cases br)
  from spec_splitAtLast_Some [of pat x b r] Some br have "x = b @ r" by simp
  then show ?thesis using Some br by (simp add: lastIndexOf_spec)
qed

lemma extractEdited_spec:
  "extractEdited s = (if spec_newlineAfterMarker s then Some (spec_editedText s) else None)"
proof (cases "spec_splitAtLast editableMarker s")
  case None
  then show ?thesis
    by (simp add: extractEdited_def spec_newlineAfterMarker_def lastIndexOf_spec)
next
  case (Some br)
  obtain b r where br: "br = (b, r)" by (cases br)
  from spec_splitAtLast_Some [of editableMarker s b r] Some br have s: "s = b @ r" by simp
  have mi: "lastIndexOf s editableMarker = int (length b)"
    using Some br by (simp add: lastIndexOf_spec)
  have dr: "drop (length b) s = r" using s by simp
  show ?thesis
  proof (cases "nl \<in> set r")
    case False
    then have "indexOf s [nl] (length b) = - 1" by (simp add: indexOf_char dr)
    then show ?thesis using False Some br mi
      by (simp add: extractEdited_def spec_newlineAfterMarker_def)
  next
    case True
    define t where "t = takeWhile (\<lambda>x. x \<noteq> nl) r"
    have am: "indexOf s [nl] (length b) = int (length b + length t)"
      using True by (simp add: indexOf_char dr t_def)
    have "drop (nat (int (length b + length t) + 1)) s = drop (Suc (length t)) r"
      using s by (simp add: nat_add_distrib)
    also have "\<dots> = drop 1 (dropWhile (\<lambda>x. x \<noteq> nl) r)"
      by (simp add: dropWhile_eq_drop t_def)
    finally have after: "drop (nat (int (length b + length t) + 1)) s
                           = drop 1 (dropWhile (\<lambda>x. x \<noteq> nl) r)" .
    have newline: "spec_newlineAfterMarker s"
      using True Some br by (simp add: spec_newlineAfterMarker_def)
    have "extractEdited s =
        Some (trim (let x = stripLeadingNewlines (drop 1 (dropWhile (\<lambda>x. x \<noteq> nl) r))
                    in if lastIndexOf x (nl # ''---'') \<noteq> - 1
                       then take (nat (lastIndexOf x (nl # ''---''))) x else x))"
      unfolding extractEdited_def mi Let_def using am after by simp
    also have "\<dots> = Some (spec_editedText s)"
      using Some br
      by (simp add: spec_editedText_def Let_def cut_spec stripLeadingNewlines_def)
    finally show ?thesis using newline by simp
  qed
qed

section \<open>The messages handler\<close>

lemma log_frame [simp]:
  "config (log level message data st) = config st"
  "analytics (log level message data st) = analytics st"
  "capturedSystem (log level message data st) = capturedSystem st"
  "capturedModel (log level message data st) = capturedModel st"
  "fs (log level message data st) = fs st"
  by (simp_all add: log_def Let_def)

lemma spliceLoop_parts:
  "fst (spliceLoop ps i t st) =
     (let k = i + length (takeWhile (\<lambda>p. part_type p \<noteq> ''text'') (drop i ps))
      in if k < length ps then ps[k := (ps ! k)\<lparr>part_text := Some t\<rparr>] else ps)"
proof (induction ps i t st rule: spliceLoop.induct)
  case (1 ps i newText st)
  show ?case
  proof (cases "i < length ps")
    case False
    then show ?thesis by (simp add: spliceLoop.simps [of ps i])
  next
    case True
    then have d: "drop i ps = ps ! i # drop (Suc i) ps" by (simp add: Cons_nth_drop_Suc)
    show ?thesis
    proof (cases "part_type (ps ! i) = ''text''")
      case isText: True
      then show ?thesis using True d by (simp add: spliceLoop.simps [of ps i])
    next
      case notText: False
      then show ?thesis using True d 1 by (simp add: spliceLoop.simps [of ps i] Let_def)
    qed
  qed
qed

lemma spliceLoop_frame:
  "config (snd (spliceLoop ps i t st)) = config st
   \<and> capturedSystem (snd (spliceLoop ps i t st)) = capturedSystem st
   \<and> capturedModel (snd (spliceLoop ps i t st)) = capturedModel st
   \<and> fs (snd (spliceLoop ps i t st)) = fs st"
proof (induction ps i t st rule: spliceLoop.induct)
  case (1 ps i newText st)
  then show ?case by (simp add: spliceLoop.simps [of ps i])
qed

lemma firstText_lt:
  "spec_firstTextIndex ps < length ps \<longleftrightarrow> list_ex (\<lambda>p. part_type p = ''text'') ps"
  unfolding spec_firstTextIndex_def by (induction ps) auto

lemma find_update_first:
  "list_ex (\<lambda>p. part_type p = ''text'') ps \<Longrightarrow> part_type q = ''text'' \<Longrightarrow>
     find (\<lambda>p. part_type p = ''text'') (ps[spec_firstTextIndex ps := q]) = Some q"
  unfolding spec_firstTextIndex_def by (induction ps) auto

text \<open>The message list after the splice of \<open>t\<close>.\<close>

lemma spliceEdited_result:
  "spliceEdited edited (st, messages) = (st', messages') \<Longrightarrow>
     fs st' = fs st \<and> config st' = config st \<and> capturedSystem st' = capturedSystem st
     \<and> capturedModel st' = capturedModel st
     \<and> messages' =
        (case extractEdited edited of
           None \<Rightarrow> messages
         | Some t \<Rightarrow>
             (let lastMsg = messages ! (length messages - 1);
                  k = spec_firstTextIndex (parts lastMsg)
              in messages[length messages - 1 :=
                   lastMsg\<lparr>parts := (if k < length (parts lastMsg)
                                      then (parts lastMsg)[k := (parts lastMsg ! k)\<lparr>part_text := Some t\<rparr>]
                                      else parts lastMsg)\<rparr>]))"
proof (cases "extractEdited edited")
  case None
  assume "spliceEdited edited (st, messages) = (st', messages')"
  with None show ?thesis by (simp add: spliceEdited_def)
next
  case (Some t)
  assume a: "spliceEdited edited (st, messages) = (st', messages')"
  define lastMsg where "lastMsg = messages ! (length messages - 1)"
  obtain ps s2 where sl: "spliceLoop (parts lastMsg) 0 t st = (ps, s2)"
    by (cases "spliceLoop (parts lastMsg) 0 t st")
  from a Some sl have st': "st' = s2" and m': "messages' = messages[length messages - 1 := lastMsg\<lparr>parts := ps\<rparr>]"
    by (simp_all add: spliceEdited_def Let_def lastMsg_def)
  have ps: "ps = (let k = spec_firstTextIndex (parts lastMsg)
      in if k < length (parts lastMsg)
         then (parts lastMsg)[k := (parts lastMsg ! k)\<lparr>part_text := Some t\<rparr>] else parts lastMsg)"
    using spliceLoop_parts [of "parts lastMsg" 0 t st] sl
    by (simp add: spec_firstTextIndex_def Let_def)
  have fr: "fs s2 = fs st \<and> config s2 = config st \<and> capturedSystem s2 = capturedSystem st
     \<and> capturedModel s2 = capturedModel st"
    using spliceLoop_frame [of "parts lastMsg" 0 t st] sl by simp
  show ?thesis using Some st' m' ps fr by (simp add: Let_def lastMsg_def)
qed

text \<open>
  Claim C8. When \<^verbatim>\<open>config.enableEditor\<close> or \<^verbatim>\<open>config.autoEdit\<close> is false, or
  \<^verbatim>\<open>output.messages\<close> is empty, or the last message has no part of type \<^verbatim>\<open>"text"\<close>,
  the handler returns with \<^verbatim>\<open>output.messages\<close> unchanged; the state differs only in
  the counter \<^verbatim>\<open>messagesIntercepted\<close>, which is one higher, and in the record that
  \<open>log\<close> passes to the host; the file system is untouched and the result does not
  depend on the operating system or the editor.
\<close>

theorem messagesTransform_skips_editor:
  assumes "\<not> enableEditor (config st) \<or> \<not> autoEdit (config st) \<or> messages = []
           \<or> \<not> list_ex (\<lambda>p. part_type p = ''text'') (parts (last messages))"
  shows "\<exists>st'. messagesTransform js sys (st, messages) = Some (Returns (st', messages))
           \<and> st' = log ''info'' ''Full message context captured''
                      (Obj [(''messageCount'', Num (int (length messages))),
                            (''systemAvailable'', Bool (length (capturedSystem st) > 0))])
                      (st\<lparr>analytics := (analytics st)\<lparr>messagesIntercepted :=
                                                     messagesIntercepted (analytics st) + 1\<rparr>\<rparr>)
           \<and> analytics st' = (analytics st)\<lparr>messagesIntercepted :=
                                                     messagesIntercepted (analytics st) + 1\<rparr>
           \<and> config st' = config st \<and> capturedSystem st' = capturedSystem st
           \<and> capturedModel st' = capturedModel st \<and> fs st' = fs st
           \<and> (\<forall>sys'. messagesTransform js sys' (st, messages)
                        = messagesTransform js sys (st, messages))"
  using assms by (auto simp: messagesTransform_def Let_def)

theorem messagesTransform_skips_editor_witness:
  "\<not> autoEdit (config (sampleState\<lparr>config := sampleConfig\<lparr>autoEdit := False\<rparr>\<rparr>))
   \<and> (\<exists>st'. messagesTransform sampleLib (sampleOs editorNeverExits)
                (sampleState\<lparr>config := sampleConfig\<lparr>autoEdit := False\<rparr>\<rparr>, sampleMessages)
              = Some (Returns (st', sampleMessages))
            \<and> messagesIntercepted (analytics st') = 1 \<and> messagesEdited (analytics st') = 0
            \<and> editorSessions (analytics st') = 0
            \<and> fs st' = fs sampleState)"
proof -
  have off: "\<not> autoEdit (config (sampleState\<lparr>config := sampleConfig\<lparr>autoEdit := False\<rparr>\<rparr>))"
    by simp
  show ?thesis
    using off
      messagesTransform_skips_editor [of "sampleState\<lparr>config := sampleConfig\<lparr>autoEdit := False\<rparr>\<rparr>"
        sampleMessages sampleLib "sampleOs editorNeverExits"]
    by (auto simp: sampleState_def)
qed

lemma spliceEdited_spliced:
  assumes "spliceEdited edited (st, messages) = (st', messages')"
  shows "messages' = (case extractEdited edited of None \<Rightarrow> messages | Some t \<Rightarrow> spec_spliced messages t)"
    and "fs st' = fs st" and "config st' = config st"
    and "capturedSystem st' = capturedSystem st" and "capturedModel st' = capturedModel st"
proof -
  note r = spliceEdited_result [OF assms]
  show "fs st' = fs st" "config st' = config st"
    "capturedSystem st' = capturedSystem st" "capturedModel st' = capturedModel st"
    using r by simp_all
  show "messages' = (case extractEdited edited of None \<Rightarrow> messages | Some t \<Rightarrow> spec_spliced messages t)"
  proof (cases "extractEdited edited")
    case None
    with r show ?thesis by simp
  next
    case (Some t)
    show ?thesis
    proof (cases "messages = []")
      case True
      with r Some show ?thesis by (simp add: spec_spliced_def Let_def)
    next
      case False
      then have l: "messages ! (length messages - 1) = last messages"
        by (simp add: last_conv_nth)
      show ?thesis using r Some l
        by (auto simp: spec_spliced_def Let_def list_update_beyond not_less)
    qed
  qed
qed

lemma readBack_messages:
  "snd (completed (readBack tempFile (st, messages))) =
     (case files (fs st) tempFile of
        None \<Rightarrow> messages
      | Some edited \<Rightarrow>
          (case extractEdited edited of None \<Rightarrow> messages | Some t \<Rightarrow> spec_spliced messages t))"
proof (cases "files (fs st) tempFile")
  case None
  then show ?thesis by (simp add: readBack_def readFile_def Let_def)
next
  case (Some edited)
  define st1 where "st1 = st\<lparr>analytics := (analytics st)\<lparr>editorSessions := editorSessions (analytics st) + 1\<rparr>\<rparr>"
  obtain st2 m2 where se: "spliceEdited edited (st1, messages) = (st2, m2)"
    by (cases "spliceEdited edited (st1, messages)")
  from spliceEdited_spliced [OF se] have
    m2: "m2 = (case extractEdited edited of None \<Rightarrow> messages | Some t \<Rightarrow> spec_spliced messages t)"
    and f2: "fs st2 = fs st1" by simp_all
  have "files (fs st2) tempFile = Some edited" using f2 Some by (simp add: st1_def)
  then have "readBack tempFile (st, messages) = Returns (st2\<lparr>fs := (fs st2)\<lparr>files := (files (fs st2))(tempFile := None)\<rparr>\<rparr>, m2)"
    using Some se by (simp add: readBack_def readFile_def unlink_def Let_def st1_def)
  then show ?thesis using Some m2 by simp
qed

lemma readBack_returns:
  "files (fs st) tempFile = Some edited \<Longrightarrow> \<exists>st'. readBack tempFile (st, messages) =
      Returns (st', case extractEdited edited of None \<Rightarrow> messages | Some t \<Rightarrow> spec_spliced messages t)"
proof -
  assume Some: "files (fs st) tempFile = Some edited"
  define st1 where "st1 = st\<lparr>analytics := (analytics st)\<lparr>editorSessions := editorSessions (analytics st) + 1\<rparr>\<rparr>"
  obtain st2 m2 where se: "spliceEdited edited (st1, messages) = (st2, m2)"
    by (cases "spliceEdited edited (st1, messages)")
  from spliceEdited_spliced [OF se] have
    m2: "m2 = (case extractEdited edited of None \<Rightarrow> messages | Some t \<Rightarrow> spec_spliced messages t)"
    and f2: "fs st2 = fs st1" by simp_all
  have "files (fs st2) tempFile = Some edited" using f2 Some by (simp add: st1_def)
  then have "readBack tempFile (st, messages) = Returns (st2\<lparr>fs := (fs st2)\<lparr>files := (files (fs st2))(tempFile := None)\<rparr>\<rparr>, m2)"
    using Some se by (simp add: readBack_def readFile_def unlink_def Let_def st1_def)
  then show ?thesis using m2 by auto
qed

lemma writeContext_transfer:
  assumes "writeContext js sys (st, m) = Inr (tf, st1)"
    and "fs a = fs st" "config a = config st"
    and "capturedSystem a = capturedSystem st" "capturedModel a = capturedModel st"
  shows "\<exists>a1. writeContext js sys (a, m) = Inr (tf, a1) \<and> fs a1 = fs st1 \<and> config a1 = config a"
  using assms
  by (auto simp: writeContext_def mkdtemp_def writeFile_def Let_def
           split: sum.splits option.splits)

lemma tryCatch_failedToEdit:
  "\<exists>s. tryCatch (Some x) failedToEdit = Some (Returns (s, snd (completed x)))"
proof (cases x)
  case (Returns p)
  then show ?thesis by (cases p) simp
next
  case (Throws e p)
  then show ?thesis by (cases p) (simp add: failedToEdit_def)
qed

lemma editorRoundTrip_messages:
  assumes "editorRoundTrip js sys (st, messages) = Some x"
  shows "snd (completed x) = messages \<or> (\<exists>t. snd (completed x) = spec_spliced messages t)"
proof (cases "writeContext js sys (st, messages)")
  case (Inl p)
  with assms show ?thesis by (cases p) (auto simp: editorRoundTrip_def)
next
  case (Inr p)
  obtain tf st1 where p: "p = (tf, st1)" by (cases p)
  show ?thesis
  proof (cases "execSync sys (editor (config st1) @ '' '' @ tf) (fs st1)")
    case Hangs
    with assms Inr p show ?thesis by (simp add: editorRoundTrip_def)
  next
    case (Exited err f)
    show ?thesis
    proof (cases err)
      case (Some e)
      with assms Inr p Exited show ?thesis by (auto simp: editorRoundTrip_def)
    next
      case None
      with assms Inr p Exited have x: "x = readBack tf (st1\<lparr>fs := f\<rparr>, messages)"
        by (auto simp: editorRoundTrip_def)
      show ?thesis
        unfolding x readBack_messages by (auto split: option.splits)
    qed
  qed
qed

lemma messagesTransform_messages:
  assumes "messagesTransform js sys (st, messages) = Some c"
  shows "\<exists>st' messages'. c = Returns (st', messages')
           \<and> (messages' = messages \<or> (\<exists>t. messages' = spec_spliced messages t))"
proof -
  define st2 where "st2 = log ''info'' ''Full message context captured''
        (Obj [(''messageCount'', Num (int (length messages))),
              (''systemAvailable'', Bool (length (capturedSystem st) > 0))])
        (st\<lparr>analytics := (analytics st)\<lparr>messagesIntercepted := messagesIntercepted (analytics st) + 1\<rparr>\<rparr>)"
  consider (skip) "c = Returns (st2, messages)"
    | (run) "c \<noteq> Returns (st2, messages)" "tryCatch (editorRoundTrip js sys (st2, messages)) failedToEdit = Some c"
    using assms unfolding messagesTransform_def st2_def
    by (auto simp: Let_def split: if_splits)
  then show ?thesis
  proof cases
    case skip
    then show ?thesis by simp
  next
    case run
    then obtain x where x: "editorRoundTrip js sys (st2, messages) = Some x"
      by (cases "editorRoundTrip js sys (st2, messages)") auto
    from tryCatch_failedToEdit [of x] run(2) x obtain s where "c = Returns (s, snd (completed x))"
      by auto
    with editorRoundTrip_messages [OF x] show ?thesis by auto
  qed
qed

lemma spec_spliced_firstText:
  assumes "messages \<noteq> []" "list_ex (\<lambda>p. part_type p = ''text'') (parts (last messages))"
  shows "spec_firstText (parts (last (spec_spliced messages t))) = Some (Some t)"
proof -
  define ps where "ps = parts (last messages)"
  define k where "k = spec_firstTextIndex ps"
  have k: "k < length ps" using assms(2) by (simp add: k_def ps_def firstText_lt)
  have ty: "part_type (ps ! k) = ''text''"
    using nth_length_takeWhile [of "\<lambda>p. part_type p \<noteq> ''text''" ps] k
    by (simp add: k_def spec_firstTextIndex_def)
  have "last (spec_spliced messages t) = (last messages)\<lparr>parts := ps[k := (ps ! k)\<lparr>part_text := Some t\<rparr>]\<rparr>"
    using assms(1) by (simp add: spec_spliced_def Let_def last_list_update ps_def k_def)
  moreover have "find (\<lambda>p. part_type p = ''text'') (ps[k := (ps ! k)\<lparr>part_text := Some t\<rparr>])
       = Some ((ps ! k)\<lparr>part_text := Some t\<rparr>)"
    unfolding k_def using find_update_first [of ps "(ps ! k)\<lparr>part_text := Some t\<rparr>"] assms(2) ty
    by (simp add: ps_def k_def)
  ultimately show ?thesis by (simp add: spec_firstText_def)
qed

lemma roundTrip_result:
  assumes "spec_editedFile js sys st messages = Some edited"
  shows "\<exists>st'. messagesTransform js sys (st, messages)
                 = Some (Returns (st', case extractEdited edited of
                                         None \<Rightarrow> messages
                                       | Some t \<Rightarrow> spec_spliced messages t))"
proof -
  from assms(1) have g: "enableEditor (config st)" "autoEdit (config st)" "messages \<noteq> []"
    "list_ex (\<lambda>p. part_type p = ''text'') (parts (last messages))"
    by (auto simp: spec_editedFile_def split: if_splits)
  from assms(1) g obtain tf st1 f where
    wc: "writeContext js sys (st, messages) = Inr (tf, st1)"
    and ex: "execSync sys (editor (config st) @ '' '' @ tf) (fs st1) = Exited None f"
    and fl: "files f tf = Some edited"
    by (auto simp: spec_editedFile_def split: sum.splits exec_result.splits option.splits)
  define st2 where "st2 = log ''info'' ''Full message context captured''
        (Obj [(''messageCount'', Num (int (length messages))),
              (''systemAvailable'', Bool (length (capturedSystem st) > 0))])
        (st\<lparr>analytics := (analytics st)\<lparr>messagesIntercepted := messagesIntercepted (analytics st) + 1\<rparr>\<rparr>)"
  have same: "fs st2 = fs st" "config st2 = config st" "capturedSystem st2 = capturedSystem st"
    "capturedModel st2 = capturedModel st" by (simp_all add: st2_def)
  from writeContext_transfer [OF wc same] obtain a1 where
    wc2: "writeContext js sys (st2, messages) = Inr (tf, a1)" and a1: "fs a1 = fs st1" "config a1 = config st2"
    by blast
  have mt: "messagesTransform js sys (st, messages)
              = tryCatch (editorRoundTrip js sys (st2, messages)) failedToEdit"
    using g by (simp add: messagesTransform_def Let_def st2_def)
  have rt: "editorRoundTrip js sys (st2, messages) = Some (readBack tf (a1\<lparr>fs := f\<rparr>, messages))"
    using wc2 ex a1 same by (simp add: editorRoundTrip_def)
  have "files (fs (a1\<lparr>fs := f\<rparr>)) tf = Some edited" using fl by simp
  from readBack_returns [OF this, of messages] obtain st' where
    rb: "readBack tf (a1\<lparr>fs := f\<rparr>, messages) =
           Returns (st', case extractEdited edited of None \<Rightarrow> messages | Some t \<Rightarrow> spec_spliced messages t)"
    by blast
  from rb mt rt show ?thesis by simp
qed

lemma editedFile_guards:
  "spec_editedFile js sys st messages = Some edited \<Longrightarrow>
     messages \<noteq> [] \<and> list_ex (\<lambda>p. part_type p = ''text'') (parts (last messages))"
  by (auto simp: spec_editedFile_def split: if_splits)

text \<open>
  Claim C1, amended. Let the editor round trip succeed and the edited file contain the
  marker \<^verbatim>\<open>(Current - Editable)\<close>. When a line break follows the last occurrence of
  the marker, the handler returns and the text of the first part of type \<^verbatim>\<open>"text"\<close> of
  the last message is the text after that line break, without its leading empty lines,
  cut before the last \<^verbatim>\<open>"\n---"\<close> if there is one, and trimmed. When no line break
  follows the last occurrence of the marker, the handler returns and
  \<^verbatim>\<open>output.messages\<close> is as it was: nothing is replaced.
\<close>

theorem messagesTransform_splices_edited_text:
  assumes "spec_editedFile js sys st messages = Some edited"
    and "sublist editableMarker edited"
  shows "(spec_newlineAfterMarker edited \<longrightarrow>
            (\<exists>st'. messagesTransform js sys (st, messages)
                     = Some (Returns (st', spec_spliced messages (spec_editedText edited))))
            \<and> spec_firstText (parts (last (spec_spliced messages (spec_editedText edited))))
                 = Some (Some (spec_editedText edited)))
       \<and> (\<not> spec_newlineAfterMarker edited \<longrightarrow>
            (\<exists>st'. messagesTransform js sys (st, messages) = Some (Returns (st', messages))))"
proof (cases "spec_newlineAfterMarker edited")
  case True
  then have "extractEdited edited = Some (spec_editedText edited)"
    by (simp add: extractEdited_spec)
  with roundTrip_result [OF assms(1)] obtain st' where
    "messagesTransform js sys (st, messages)
       = Some (Returns (st', spec_spliced messages (spec_editedText edited)))"
    by auto
  with spec_spliced_firstText [of messages "spec_editedText edited"] editedFile_guards [OF assms(1)]
    True
  show ?thesis by blast
next
  case False
  then have "extractEdited edited = None" by (simp add: extractEdited_spec)
  with roundTrip_result [OF assms(1)] obtain st' where
    "messagesTransform js sys (st, messages) = Some (Returns (st', messages))"
    by auto
  with False show ?thesis by blast
qed

theorem messagesTransform_splices_edited_text_witness:
  "spec_editedFile sampleLib (sampleOs (editorSaves sampleTempFile editedSample))
       sampleState sampleMessages = Some editedSample
   \<and> sublist editableMarker editedSample
   \<and> spec_newlineAfterMarker editedSample
   \<and> (\<exists>st'. messagesTransform sampleLib (sampleOs (editorSaves sampleTempFile editedSample))
                (sampleState, sampleMessages)
              = Some (Returns (st', [\<lparr>role = ''user'', parts = [textPart ''hello there'']\<rparr>])))
   \<and> spec_editedFile sampleLib (sampleOs (editorSaves sampleTempFile markerAtEnd))
       sampleState sampleMessages = Some markerAtEnd
   \<and> sublist editableMarker markerAtEnd
   \<and> \<not> spec_newlineAfterMarker markerAtEnd
   \<and> (\<exists>st'. messagesTransform sampleLib (sampleOs (editorSaves sampleTempFile markerAtEnd))
                (sampleState, sampleMessages)
              = Some (Returns (st', sampleMessages)))"
proof -
  have h1: "spec_editedFile sampleLib (sampleOs (editorSaves sampleTempFile editedSample))
       sampleState sampleMessages = Some editedSample"
    by code_simp
  have h2: "sublist editableMarker editedSample" by code_simp
  have h3: "spec_newlineAfterMarker editedSample" by code_simp
  have h4: "spec_spliced sampleMessages (spec_editedText editedSample)
              = [\<lparr>role = ''user'', parts = [textPart ''hello there'']\<rparr>]"
    by code_simp
  have k1: "spec_editedFile sampleLib (sampleOs (editorSaves sampleTempFile markerAtEnd))
       sampleState sampleMessages = Some markerAtEnd"
    by code_simp
  have k2: "sublist editableMarker markerAtEnd" by code_simp
  have k3: "\<not> spec_newlineAfterMarker markerAtEnd" by code_simp
  from messagesTransform_splices_edited_text [OF h1 h2] h3
  have a: "\<exists>st'. messagesTransform sampleLib (sampleOs (editorSaves sampleTempFile editedSample))
                (sampleState, sampleMessages)
              = Some (Returns (st', [\<lparr>role = ''user'', parts = [textPart ''hello there'']\<rparr>]))"
    unfolding h4 by blast
  from messagesTransform_splices_edited_text [OF k1 k2] k3
  have b: "\<exists>st'. messagesTransform sampleLib (sampleOs (editorSaves sampleTempFile markerAtEnd))
                (sampleState, sampleMessages)
              = Some (Returns (st', sampleMessages))"
    by blast
  from h1 h2 h3 a k1 k2 k3 b show ?thesis by blast
qed

text \<open>
  Claim C1 as stated fails when nothing follows the marker: the round trip succeeds and
  the file contains the marker, but the text of the message stays \<open>hi\<close>, which is not
  the text the claim describes.
\<close>

theorem splice_without_newline_counterexample:
  "spec_editedFile sampleLib (sampleOs (editorSaves sampleTempFile markerAtEnd))
       sampleState sampleMessages = Some markerAtEnd
   \<and> sublist editableMarker markerAtEnd
   \<and> resultMessages (messagesTransform sampleLib (sampleOs (editorSaves sampleTempFile markerAtEnd))
        (sampleState, sampleMessages)) = Some sampleMessages
   \<and> spec_firstText (parts (last sampleMessages)) = Some (Some ''hi'')
   \<and> spec_editedText markerAtEnd = []
   \<and> spec_firstText (parts (last sampleMessages)) \<noteq> Some (Some (spec_editedText markerAtEnd))"
  by code_simp

lemma spec_spliced_frame:
  "length (spec_spliced messages t) = length messages"
  "i + 1 < length messages \<Longrightarrow> spec_spliced messages t ! i = messages ! i"
  "messages \<noteq> [] \<Longrightarrow> last (spec_spliced messages t) =
     (last messages)\<lparr>parts := (parts (last messages))[spec_firstTextIndex (parts (last messages)) :=
        (parts (last messages) ! spec_firstTextIndex (parts (last messages)))\<lparr>part_text := Some t\<rparr>]\<rparr>"
  by (simp_all add: spec_spliced_def Let_def last_list_update)

text \<open>
  Claim C9. Whenever the handler completes, \<^verbatim>\<open>output.messages\<close> has the same length,
  every message keeps its role and the number of its parts, and every part of every
  message is unchanged, except that the first part of type \<^verbatim>\<open>"text"\<close> of the last
  message may differ in its \<^verbatim>\<open>text\<close> field and in nothing else.
\<close>

theorem splice_changes_only_first_text:
  assumes "messagesTransform js sys (st, messages) = Some c"
  shows "\<exists>st' messages'. c = Returns (st', messages')
     \<and> length messages' = length messages
     \<and> (\<forall>i < length messages.
           role (messages' ! i) = role (messages ! i)
         \<and> length (parts (messages' ! i)) = length (parts (messages ! i))
         \<and> (\<forall>j < length (parts (messages ! i)).
               if i + 1 = length messages \<and> j = spec_firstTextIndex (parts (messages ! i))
               then \<exists>t. parts (messages' ! i) ! j = (parts (messages ! i) ! j)\<lparr>part_text := t\<rparr>
               else parts (messages' ! i) ! j = parts (messages ! i) ! j))"
proof -
  from messagesTransform_messages [OF assms] obtain st' messages' where
    c: "c = Returns (st', messages')"
    and m: "messages' = messages \<or> (\<exists>t. messages' = spec_spliced messages t)" by blast
  have keep: "\<exists>t. p = p\<lparr>part_text := t\<rparr>" for p :: part
    by (rule exI [of _ "part_text p"]) simp
  from m show ?thesis
  proof
    assume same: "messages' = messages"
    with c keep show ?thesis by auto
  next
    assume "\<exists>t. messages' = spec_spliced messages t"
    then obtain t where t: "messages' = spec_spliced messages t" ..
    have len: "length messages' = length messages" by (simp add: t spec_spliced_frame(1))
    have each: "role (messages' ! i) = role (messages ! i)
         \<and> length (parts (messages' ! i)) = length (parts (messages ! i))
         \<and> (\<forall>j < length (parts (messages ! i)).
               if i + 1 = length messages \<and> j = spec_firstTextIndex (parts (messages ! i))
               then \<exists>t. parts (messages' ! i) ! j = (parts (messages ! i) ! j)\<lparr>part_text := t\<rparr>
               else parts (messages' ! i) ! j = parts (messages ! i) ! j)"
      if i: "i < length messages" for i
    proof (cases "i + 1 = length messages")
      case False
      with i have "i + 1 < length messages" by simp
      then have "messages' ! i = messages ! i" by (simp add: t spec_spliced_frame(2))
      with False show ?thesis by simp
    next
      case True
      then have ne: "messages \<noteq> []" by auto
      have ne': "messages' \<noteq> []" using ne len by auto
      have i: "i = length messages - 1" "i = length messages' - 1" using True len by simp_all
      have l: "messages ! i = last messages" using ne i(1) by (simp add: last_conv_nth)
      have l': "messages' ! i = last messages'" using ne' i(2) by (simp add: last_conv_nth)
      show ?thesis
        unfolding l l' using True spec_spliced_frame(3) [OF ne, of t] l
        by (auto simp: t nth_list_update)
    qed
    from c len each show ?thesis by blast
  qed
qed

theorem splice_changes_only_first_text_witness:
  "\<exists>st'. messagesTransform sampleLib (sampleOs (editorSaves sampleTempFile editedSample))
            (sampleState, sampleHistory)
          = Some (Returns (st',
              [\<lparr>role = ''assistant'', parts = [textPart ''earlier'']\<rparr>,
               \<lparr>role = ''user'',
                parts = [toolPart ''bash'', textPart ''hello there'', textPart ''more'']\<rparr>]))"
proof -
  have h1: "spec_editedFile sampleLib (sampleOs (editorSaves sampleTempFile editedSample))
       sampleState sampleHistory = Some editedSample"
    by code_simp
  have h3: "spec_newlineAfterMarker editedSample" by code_simp
  have h4: "spec_spliced sampleHistory (spec_editedText editedSample)
              = [\<lparr>role = ''assistant'', parts = [textPart ''earlier'']\<rparr>,
                 \<lparr>role = ''user'',
                  parts = [toolPart ''bash'', textPart ''hello there'', textPart ''more'']\<rparr>]"
    by code_simp
  have h5: "extractEdited editedSample = Some (spec_editedText editedSample)"
    using h3 by (simp add: extractEdited_spec)
  from roundTrip_result [OF h1] obtain st' where
    r: "messagesTransform sampleLib (sampleOs (editorSaves sampleTempFile editedSample))
            (sampleState, sampleHistory)
          = Some (Returns (st', spec_spliced sampleHistory (spec_editedText editedSample)))"
    unfolding h5 by auto
  from splice_changes_only_first_text [OF r] r show ?thesis unfolding h4 by blast
qed

section \<open>The headers of the document\<close>

lemma pushPart_append: "pushPart js p lines = lines @ pushPart js p []"
  by (simp add: pushPart_def)

lemma partsLoop_append: "partsLoop js ps lines = lines @ partsLoop js ps []"
proof (induction ps arbitrary: lines)
  case Nil
  then show ?case by simp
next
  case (Cons p ps)
  have "partsLoop js (p # ps) lines = partsLoop js ps (pushPart js p lines)" by simp
  also have "\<dots> = pushPart js p lines @ partsLoop js ps []" by (rule Cons.IH)
  also have "\<dots> = lines @ pushPart js p [] @ partsLoop js ps []"
    by (subst pushPart_append) simp
  also have "pushPart js p [] @ partsLoop js ps [] = partsLoop js ps (pushPart js p [])"
    by (rule Cons.IH [symmetric])
  finally show ?case by simp
qed

lemma headerLine_spec: "i < length messages \<Longrightarrow> headerLine js messages i = spec_headerLine js messages i"
  by (auto simp: headerLine_def spec_headerLine_def spec_header_def Let_def)

lemma messagesLoop_blocks:
  "messagesLoop js messages i lines =
     lines @ concat (map (\<lambda>j. spec_headerLine js messages j
                              # ([] # partsLoop js (parts (messages ! j)) [] @ [''---'', []]))
                     [i ..< length messages])"
proof (induction js messages i lines rule: messagesLoop.induct)
  case (1 js messages i lines)
  show ?case
  proof (cases "i < length messages")
    case False
    then show ?thesis by (simp add: messagesLoop.simps [of js messages i])
  next
    case True
    have "messagesLoop js messages i lines =
        messagesLoop js messages (i + 1)
          (partsLoop js (parts (messages ! i)) (lines @ [headerLine js messages i, []]) @ [''---'', []])"
      using True by (simp add: messagesLoop.simps [of js messages i])
    also have "\<dots> = (partsLoop js (parts (messages ! i)) (lines @ [headerLine js messages i, []]) @ [''---'', []])
        @ concat (map (\<lambda>j. spec_headerLine js messages j
                              # ([] # partsLoop js (parts (messages ! j)) [] @ [''---'', []]))
                     [i + 1 ..< length messages])"
      using 1 True by simp
    also have "partsLoop js (parts (messages ! i)) (lines @ [headerLine js messages i, []])
        = lines @ [spec_headerLine js messages i, []] @ partsLoop js (parts (messages ! i)) []"
      using True by (subst partsLoop_append) (simp add: headerLine_spec)
    finally show ?thesis using True by (simp add: upt_conv_Cons)
  qed
qed

lemma subseq_heads: "subseq (map f js) (concat (map (\<lambda>j. f j # g j) js))"
proof (induction js)
  case Nil
  then show ?case by simp
next
  case (Cons j js)
  have "subseq (map f js) (g j @ concat (map (\<lambda>j. f j # g j) js))"
    using Cons by (rule subseq_drop_many)
  then show ?case by simp
qed

lemma systemLoop_append: "systemLoop ss lines = lines @ concat (map (\<lambda>s. [s, []]) ss)"
  by (induction ss arbitrary: lines) simp_all

lemma systemSection_spec:
  "systemSection system lines = lines @ (if system = [] then [] else spec_systemSection system)"
  by (simp add: systemSection_def spec_systemSection_def systemLoop_append)

lemma formatLines_parts:
  "formatLines js timestamp system messages mdl =
     preambleLines timestamp mdl (length messages)
     @ (if system = [] then [] else spec_systemSection system)
     @ concat (map (\<lambda>j. spec_headerLine js messages j
                              # ([] # partsLoop js (parts (messages ! j)) [] @ [''---'', []]))
                     [0 ..< length messages])"
  by (simp add: formatLines_def messagesLoop_blocks systemSection_spec)

lemma formatLines_headers:
  "subseq (map (spec_headerLine js messages) [0 ..< length messages])
          (formatLines js timestamp system messages mdl)"
  unfolding formatLines_def messagesLoop_blocks
  by (rule subseq_drop_many) (rule subseq_heads)

lemma spec_lines_not_Nil [simp]: "spec_lines s \<noteq> []"
  by (induction s) (auto split: list.splits)

lemma spec_lines_break: "spec_lines (a @ nl # b) = spec_lines a @ spec_lines b"
proof (induction a)
  case Nil
  then show ?case by simp
next
  case (Cons c a)
  show ?case
  proof (cases "c = nl")
    case True
    with Cons show ?thesis by simp
  next
    case False
    obtain l ls where l: "spec_lines a = l # ls" by (cases "spec_lines a") auto
    with False Cons show ?thesis by simp
  qed
qed

lemma spec_lines_single: "nl \<notin> set s \<Longrightarrow> spec_lines s = [s]"
  by (induction s) auto

lemma spec_lines_joinLines: "ls \<noteq> [] \<Longrightarrow> spec_lines (joinLines ls) = concat (map spec_lines ls)"
proof (induction ls rule: joinLines.induct)
  case 1
  then show ?case by simp
next
  case (2 l)
  then show ?case by simp
next
  case (3 l m ls)
  then show ?case by (simp add: spec_lines_break)
qed

lemma subseq_concat_map:
  "subseq xs ys \<Longrightarrow> subseq (concat (map f xs)) (concat (map f ys))"
proof (induction rule: list_emb.induct)
  case (list_emb_Nil ys)
  then show ?case by simp
next
  case (list_emb_Cons xs ys y)
  then show ?case by (simp add: subseq_drop_many)
next
  case (list_emb_Cons2 x y xs ys)
  then show ?case by (simp add: list_emb_append_mono)
qed

lemma concat_singletons: "(\<forall>x \<in> set xs. f x = [x]) \<Longrightarrow> concat (map f xs) = xs"
  by (induction xs) auto

lemma digitChar_code: "d < 10 \<Longrightarrow> (of_char (digitChar d) :: nat) = 48 + d"
  by (simp add: digitChar_def)

lemma digitChar_not_nl: "d < 10 \<Longrightarrow> digitChar d \<noteq> nl"
proof
  assume d: "d < 10" and e: "digitChar d = nl"
  from e have "(of_char (digitChar d) :: nat) = of_char nl" by simp
  with d show False by (simp add: digitChar_code nl_def)
qed

lemma showNat_no_nl: "nl \<notin> set (showNat n)"
proof (induction n rule: showNat.induct)
  case (1 n)
  show ?case
  proof (cases "n < 10")
    case True
    then have "digitChar n \<noteq> nl" by (rule digitChar_not_nl)
    with True show ?thesis by (subst showNat.simps) auto
  next
    case False
    have "n mod 10 < 10" by simp
    then have "digitChar (n mod 10) \<noteq> nl" by (rule digitChar_not_nl)
    with False 1 show ?thesis by (subst showNat.simps) auto
  qed
qed

lemma literal_no_nl:
  "nl \<notin> set ''## [''" "nl \<notin> set ''/''" "nl \<notin> set ''] ''" "nl \<notin> set editableSuffix"
  by (simp_all add: nl_def editableSuffix_def)

lemma spec_headerLine_no_nl:
  assumes "nl \<notin> set (toUpperCase js (role (messages ! i)))"
  shows "nl \<notin> set (spec_headerLine js messages i)"
  using assms showNat_no_nl [of "i + 1"] showNat_no_nl [of "length messages"] literal_no_nl
  unfolding spec_headerLine_def spec_header_def
  by (simp only: set_append Un_iff if_distrib [of set] set_simps empty_iff split: if_splits) auto

lemma document_headers:
  assumes "\<forall>m \<in> set messages. nl \<notin> set (toUpperCase js (role m))"
  shows "subseq (map (spec_headerLine js messages) [0 ..< length messages])
           (spec_lines (formatFullContext js timestamp system messages mdl))"
proof -
  let ?hs = "map (spec_headerLine js messages) [0 ..< length messages]"
  let ?ls = "formatLines js timestamp system messages mdl"
  have ne: "?ls \<noteq> []"
    unfolding formatLines_def messagesLoop_blocks
    by (simp add: systemSection_def preambleLines_def)
  have "\<forall>h \<in> set ?hs. spec_lines h = [h]"
  proof
    fix h assume "h \<in> set ?hs"
    then obtain i where i: "i < length messages" and h: "h = spec_headerLine js messages i" by auto
    from i assms have "nl \<notin> set (toUpperCase js (role (messages ! i)))" by simp
    then have "nl \<notin> set h" unfolding h by (rule spec_headerLine_no_nl)
    then show "spec_lines h = [h]" by (rule spec_lines_single)
  qed
  then have "concat (map spec_lines ?hs) = ?hs" by (rule concat_singletons)
  moreover have "subseq (concat (map spec_lines ?hs)) (concat (map spec_lines ?ls))"
    using formatLines_headers by (rule subseq_concat_map)
  ultimately show ?thesis
    unfolding formatFullContext_def spec_lines_joinLines [OF ne] by simp
qed

lemma upperCases_no_e:
  assumes "spec_upperCases js"
  shows "CHR ''e'' \<notin> set (toUpperCase js s)"
proof
  assume "CHR ''e'' \<in> set (toUpperCase js s)"
  moreover from assms have
    "\<forall>c \<in> set (toUpperCase js s). (of_char c :: nat) < 97 \<or> 122 < (of_char c :: nat)"
    by (simp add: spec_upperCases_def list_all_iff)
  ultimately have "(of_char (CHR ''e'') :: nat) < 97 \<or> 122 < (of_char (CHR ''e'') :: nat)"
    by blast
  then show False by simp
qed

lemma no_suffix_after_space:
  assumes "CHR ''e'' \<notin> set u"
  shows "\<not> suffix ''e)'' (p @ CHR '' '' # u)"
proof (cases u rule: rev_cases)
  case Nil
  show ?thesis unfolding Nil
    using suffix_snoc [of "''e)''" p "CHR '' ''"] by auto
next
  case (snoc u' x)
  show ?thesis
  proof (cases u' rule: rev_cases)
    case Nil
    have "\<not> suffix ''e)'' ((p @ [CHR '' '']) @ [x])"
      by (auto simp: suffix_def append_eq_append_conv2 Cons_eq_append_conv append_eq_Cons_conv)
    then show ?thesis unfolding snoc Nil by simp
  next
    case (snoc u'' y)
    from assms have y: "y \<noteq> CHR ''e''" unfolding \<open>u = u' @ [x]\<close> snoc by auto
    have "\<not> suffix ''e)'' ((p @ CHR '' '' # u'') @ [y, x])"
    proof
      assume "suffix ''e)'' ((p @ CHR '' '' # u'') @ [y, x])"
      then obtain zs where "(p @ CHR '' '' # u'') @ [y, x] = zs @ [CHR ''e'', CHR '')'']"
        by (auto simp: suffix_def)
      then have "[y, x] = [CHR ''e'', CHR '')'']" by simp
      with y show False by simp
    qed
    then show ?thesis unfolding \<open>u = u' @ [x]\<close> snoc by simp
  qed
qed

lemma spec_header_no_suffix:
  assumes "spec_upperCases js"
  shows "\<not> suffix editableSuffix (spec_header js messages i)"
proof
  assume a: "suffix editableSuffix (spec_header js messages i)"
  have "editableSuffix = '' (Current - Editabl'' @ ''e)''" by (simp add: editableSuffix_def)
  with a have "suffix ''e)'' (spec_header js messages i)" by (metis suffix_appendD)
  moreover have "spec_header js messages i =
      (''## ['' @ showNat (i + 1) @ ''/'' @ showNat (length messages) @ '']'')
        @ CHR '' '' # toUpperCase js (role (messages ! i))"
    by (simp add: spec_header_def)
  ultimately show False
    using no_suffix_after_space [OF upperCases_no_e [OF assms]] by metis
qed

lemma suffix_iff:
  assumes "spec_upperCases js"
  shows "suffix editableSuffix (spec_headerLine js messages i)
     \<longleftrightarrow> (i + 1 = length messages \<and> role (messages ! i) = ''user'')"
  using spec_header_no_suffix [OF assms, of messages i]
  by (auto simp: spec_headerLine_def suffix_def)

lemma fixed_lines_no_suffix:
  "\<not> suffix editableSuffix []" "\<not> suffix editableSuffix ''---''"
  "\<not> suffix editableSuffix ''## System Prompt''"
  by (simp_all add: editableSuffix_def suffix_to_prefix)

lemma suffixed_lines:
  assumes up: "spec_upperCases js"
    and l: "l \<in> set (formatLines js timestamp system messages mdl)"
    and sfx: "suffix editableSuffix l"
  shows "l \<in> set (preambleLines timestamp mdl (length messages))
       \<or> l \<in> set system
       \<or> (\<exists>i < length messages. l \<in> set (spec_partLines js messages i))
       \<or> (messages \<noteq> [] \<and> role (last messages) = ''user''
            \<and> l = spec_headerLine js messages (length messages - 1))"
proof -
  from l consider
      (pre) "l \<in> set (preambleLines timestamp mdl (length messages))"
    | (sec) "system \<noteq> []" "l \<in> set (spec_systemSection system)"
    | (blk) i where "i < length messages"
        "l = spec_headerLine js messages i \<or> l = []
           \<or> l \<in> set (partsLoop js (parts (messages ! i)) []) \<or> l = ''---''"
    unfolding formatLines_parts by (auto split: if_splits)
  then show ?thesis
  proof cases
    case pre
    then show ?thesis by simp
  next
    case sec
    from sec(2) have "l = ''## System Prompt'' \<or> l = [] \<or> l \<in> set system \<or> l = ''---''"
      by (auto simp: spec_systemSection_def)
    with sfx fixed_lines_no_suffix show ?thesis by auto
  next
    case (blk i)
    from blk(2) sfx fixed_lines_no_suffix
    have "l = spec_headerLine js messages i \<or> l \<in> set (spec_partLines js messages i)"
      by (auto simp: spec_partLines_def)
    then show ?thesis
    proof
      assume p: "l \<in> set (spec_partLines js messages i)"
      with blk(1) show ?thesis by blast
    next
      assume h: "l = spec_headerLine js messages i"
      with sfx suffix_iff [OF up, of messages i]
      have i: "i + 1 = length messages" and r: "role (messages ! i) = ''user''" by simp_all
      from i have ne: "messages \<noteq> []" and idx: "i = length messages - 1" by auto
      from ne idx have "messages ! i = last messages" by (simp add: last_conv_nth)
      with h r ne idx show ?thesis by simp
    qed
  qed
qed

lemma upperAsciiChar_code:
  "(of_char (upperAsciiChar c) :: nat) =
     (if 97 \<le> (of_char c :: nat) \<and> (of_char c :: nat) \<le> 122 then of_char c - 32 else of_char c)"
proof -
  have "(of_char c :: nat) - 32 < 256"
    using nat_of_char_less_256 [of c] by linarith
  then show ?thesis by (simp add: upperAsciiChar_def)
qed

lemma sampleLib_upperCases: "spec_upperCases sampleLib"
proof -
  have "(of_char (upperAsciiChar c) :: nat) < 97 \<or> 122 < (of_char (upperAsciiChar c) :: nat)" for c
    unfolding upperAsciiChar_code by (simp split: if_splits) linarith
  then show ?thesis
    by (simp add: spec_upperCases_def sampleLib_def upperAscii_def list_all_iff)
qed

text \<open>
  Claim C2. Let upper-casing leave no letter \<open>a\<close> to \<open>z\<close>. The array of lines that
  \<open>formatFullContext\<close> joins is the preamble, the system prompt section if there is
  one, and then for each message in list order one block: its header
  \<^verbatim>\<open>## [i+1/N] ROLE\<close>, with the suffix \<^verbatim>\<open> (Current - Editable)\<close> when it is the last
  message and its role is \<^verbatim>\<open>"user"\<close>, an empty line, the lines of its parts, and the
  separator. So the headers are in the array in list order and, when no upper-cased
  role contains a line break, they are lines of the document in that order. A header
  ends with the suffix exactly when it is the header of the last message and the role
  of that message is \<^verbatim>\<open>"user"\<close>; and a line of the array that ends with the suffix is
  that header, unless it is a line of the preamble, a system string or a line written
  for a part.
\<close>

theorem formatFullContext_headers:
  assumes "spec_upperCases js"
  shows "formatFullContext js timestamp system messages mdl
     = joinLines (formatLines js timestamp system messages mdl)
   \<and> formatLines js timestamp system messages mdl
     = preambleLines timestamp mdl (length messages)
       @ (if system = [] then [] else spec_systemSection system)
       @ concat (map (\<lambda>i. spec_headerLine js messages i
                              # ([] # spec_partLines js messages i @ [''---'', []]))
                     [0 ..< length messages])
   \<and> subseq (map (spec_headerLine js messages) [0 ..< length messages])
        (formatLines js timestamp system messages mdl)
   \<and> ((\<forall>m \<in> set messages. nl \<notin> set (toUpperCase js (role m))) \<longrightarrow>
        subseq (map (spec_headerLine js messages) [0 ..< length messages])
          (spec_lines (formatFullContext js timestamp system messages mdl)))
   \<and> (\<forall>i < length messages.
        suffix editableSuffix (spec_headerLine js messages i)
          \<longleftrightarrow> (i + 1 = length messages \<and> role (messages ! i) = ''user''))
   \<and> (\<forall>l \<in> set (formatLines js timestamp system messages mdl).
        suffix editableSuffix l \<longrightarrow>
          l \<in> set (preambleLines timestamp mdl (length messages))
          \<or> l \<in> set system
          \<or> (\<exists>i < length messages. l \<in> set (spec_partLines js messages i))
          \<or> (messages \<noteq> [] \<and> role (last messages) = ''user''
               \<and> l = spec_headerLine js messages (length messages - 1)))"
proof -
  have one: "formatFullContext js timestamp system messages mdl
     = joinLines (formatLines js timestamp system messages mdl)"
    by (simp add: formatFullContext_def)
  have two: "formatLines js timestamp system messages mdl
     = preambleLines timestamp mdl (length messages)
       @ (if system = [] then [] else spec_systemSection system)
       @ concat (map (\<lambda>i. spec_headerLine js messages i
                              # ([] # spec_partLines js messages i @ [''---'', []]))
                     [0 ..< length messages])"
    unfolding spec_partLines_def by (rule formatLines_parts)
  note three = formatLines_headers [of js messages timestamp system mdl]
  note four = document_headers [of messages js timestamp system mdl]
  note five = suffix_iff [OF assms, of messages]
  note six = suffixed_lines [OF assms, of _ timestamp system messages mdl]
  from one two three four five six show ?thesis by blast
qed

theorem formatFullContext_headers_witness:
  "spec_upperCases sampleLib
   \<and> subseq [''## [1/2] ASSISTANT'', ''## [2/2] USER (Current - Editable)'']
       (spec_lines (formatFullContext sampleLib ''2024-05-01T12:00:00.000Z'' [''Be brief.'']
          sampleHistory None))
   \<and> \<not> suffix editableSuffix ''## [1/2] ASSISTANT''
   \<and> suffix editableSuffix ''## [2/2] USER (Current - Editable)''"
proof -
  note up = sampleLib_upperCases
  have "list_all (\<lambda>m. nl \<notin> set (toUpperCase sampleLib (role m))) sampleHistory"
    by code_simp
  then have roles: "\<forall>m \<in> set sampleHistory. nl \<notin> set (toUpperCase sampleLib (role m))"
    by (simp add: list_all_iff)
  have hs: "map (spec_headerLine sampleLib sampleHistory) [0 ..< length sampleHistory]
              = [''## [1/2] ASSISTANT'', ''## [2/2] USER (Current - Editable)'']"
    by code_simp
  have h0: "spec_headerLine sampleLib sampleHistory 0 = ''## [1/2] ASSISTANT''"
    and h1: "spec_headerLine sampleLib sampleHistory 1 = ''## [2/2] USER (Current - Editable)''"
    by code_simp+
  have len: "length sampleHistory = 2" by (simp add: sampleHistory_def)
  have r: "role (sampleHistory ! 1) = ''user''" by (simp add: sampleHistory_def)
  note t = formatFullContext_headers [OF up, of "''2024-05-01T12:00:00.000Z''" "[''Be brief.'']"
      sampleHistory None]
  from t roles have a: "subseq (map (spec_headerLine sampleLib sampleHistory) [0 ..< length sampleHistory])
     (spec_lines (formatFullContext sampleLib ''2024-05-01T12:00:00.000Z'' [''Be brief.'']
        sampleHistory None))" by blast
  from t have s: "\<forall>i < length sampleHistory.
        suffix editableSuffix (spec_headerLine sampleLib sampleHistory i)
          \<longleftrightarrow> (i + 1 = length sampleHistory \<and> role (sampleHistory ! i) = ''user'')" by blast
  from s [rule_format, of 0] len have b: "\<not> suffix editableSuffix ''## [1/2] ASSISTANT''"
    unfolding h0 by simp
  from s [rule_format, of 1] len r have c: "suffix editableSuffix ''## [2/2] USER (Current - Editable)''"
    unfolding h1 by simp
  from up a b c show ?thesis unfolding hs by blast
qed

section \<open>The system prompt in the document\<close>

lemma joinLines_append:
  "xs \<noteq> [] \<Longrightarrow> joinLines (xs @ ys) = joinLines xs @ concat (map ((#) nl) ys)"
proof (induction xs rule: joinLines.induct)
  case 1
  then show ?case by simp
next
  case (2 l)
  show ?case
  proof (induction ys arbitrary: l)
    case Nil
    then show ?case by simp
  next
    case (Cons y ys)
    from Cons [of y] show ?case by simp
  qed
next
  case (3 l m ls)
  then show ?case by simp
qed

lemma preambleLines_not_Nil [simp]: "preambleLines timestamp mdl n \<noteq> []"
  by (simp add: preambleLines_def)

lemma header_start: "\<exists>rest. spec_headerLine js messages j = ''## ['' @ rest"
  by (simp add: spec_headerLine_def spec_header_def)

lemma section_prefix_iff:
  "prefix (joinLines (preambleLines timestamp mdl (length messages) @ [''## System Prompt'']))
          (formatFullContext js timestamp system messages mdl)
     \<longleftrightarrow> system \<noteq> []"
proof (cases "system = []")
  case False
  have "prefix (preambleLines timestamp mdl (length messages) @ [''## System Prompt''])
          (formatLines js timestamp system messages mdl)"
    using False by (simp add: formatLines_parts spec_systemSection_def)
  then obtain rest where
    "formatLines js timestamp system messages mdl
       = (preambleLines timestamp mdl (length messages) @ [''## System Prompt'']) @ rest"
    by (auto simp: prefix_def)
  then have "formatFullContext js timestamp system messages mdl
       = joinLines (preambleLines timestamp mdl (length messages) @ [''## System Prompt''])
          @ concat (map ((#) nl) rest)"
    by (simp add: formatFullContext_def joinLines_append)
  with False show ?thesis by simp
next
  case True
  let ?pre = "preambleLines timestamp mdl (length messages)"
  let ?blocks = "concat (map (\<lambda>j. spec_headerLine js messages j
                              # ([] # partsLoop js (parts (messages ! j)) [] @ [''---'', []]))
                     [0 ..< length messages])"
  have doc: "formatFullContext js timestamp system messages mdl
               = joinLines ?pre @ concat (map ((#) nl) ?blocks)"
    using True by (simp add: formatFullContext_def formatLines_parts joinLines_append)
  have lhs: "joinLines (?pre @ [''## System Prompt'']) = joinLines ?pre @ nl # ''## System Prompt''"
    by (simp add: joinLines_append)
  have "\<not> prefix (nl # ''## System Prompt'') (concat (map ((#) nl) ?blocks))"
  proof (cases "messages = []")
    case True
    then show ?thesis by simp
  next
    case False
    then have "[0 ..< length messages] = 0 # [1 ..< length messages]"
      by (simp add: upt_conv_Cons)
    moreover obtain rest where "spec_headerLine js messages 0 = ''## ['' @ rest"
      using header_start by blast
    ultimately show ?thesis by simp
  qed
  with True show ?thesis unfolding doc lhs by simp
qed

lemma section_prefix:
  "system \<noteq> [] \<Longrightarrow>
     prefix (joinLines (preambleLines timestamp mdl (length messages) @ spec_systemSection system))
            (formatFullContext js timestamp system messages mdl)"
proof -
  assume "system \<noteq> []"
  then have "formatFullContext js timestamp system messages mdl
     = joinLines ((preambleLines timestamp mdl (length messages) @ spec_systemSection system)
         @ concat (map (\<lambda>j. spec_headerLine js messages j
                              # ([] # partsLoop js (parts (messages ! j)) [] @ [''---'', []]))
                     [0 ..< length messages]))"
    by (simp add: formatFullContext_def formatLines_parts)
  also have "\<dots> = joinLines (preambleLines timestamp mdl (length messages) @ spec_systemSection system)
      @ concat (map ((#) nl) (concat (map (\<lambda>j. spec_headerLine js messages j
                              # ([] # partsLoop js (parts (messages ! j)) [] @ [''---'', []]))
                     [0 ..< length messages])))"
    by (rule joinLines_append) simp
  finally show ?thesis by simp
qed

lemma writtenDocument_format:
  "spec_writtenDocument js sys st messages = Some doc \<Longrightarrow>
     doc = formatFullContext js (now sys)
             (if showSystemMessages (config st) then capturedSystem st else [])
             messages (capturedModel st)"
  by (auto simp: spec_writtenDocument_def writeContext_def mkdtemp_def writeFile_def Let_def
           split: if_splits sum.splits option.splits)

lemma writeContext_frame:
  "writeContext js sys (st, m) = Inl (e, st1) \<Longrightarrow>
     config st1 = config st \<and> capturedSystem st1 = capturedSystem st \<and> capturedModel st1 = capturedModel st"
  "writeContext js sys (st, m) = Inr (tf, st1) \<Longrightarrow>
     config st1 = config st \<and> capturedSystem st1 = capturedSystem st \<and> capturedModel st1 = capturedModel st"
  by (auto simp: writeContext_def mkdtemp_def writeFile_def Let_def split: sum.splits option.splits)

lemma readBack_frame:
  "config (fst (completed (readBack tf (st, m)))) = config st
   \<and> capturedSystem (fst (completed (readBack tf (st, m)))) = capturedSystem st
   \<and> capturedModel (fst (completed (readBack tf (st, m)))) = capturedModel st"
proof (cases "files (fs st) tf")
  case None
  then show ?thesis by (simp add: readBack_def readFile_def Let_def)
next
  case (Some edited)
  define st1 where "st1 = st\<lparr>analytics := (analytics st)\<lparr>editorSessions := editorSessions (analytics st) + 1\<rparr>\<rparr>"
  obtain st2 m2 where se: "spliceEdited edited (st1, m) = (st2, m2)"
    by (cases "spliceEdited edited (st1, m)")
  note fr = spliceEdited_spliced(2-5) [OF se]
  show ?thesis
    using Some se fr
    by (auto simp: readBack_def readFile_def unlink_def Let_def st1_def split: option.splits)
qed

lemma editorRoundTrip_frame:
  assumes "editorRoundTrip js sys (st, m) = Some x"
  shows "config (fst (completed x)) = config st
   \<and> capturedSystem (fst (completed x)) = capturedSystem st
   \<and> capturedModel (fst (completed x)) = capturedModel st"
proof (cases "writeContext js sys (st, m)")
  case (Inl p)
  obtain e st1 where p: "p = (e, st1)" by (cases p)
  from assms Inl p have "x = Throws e (st1, m)" by (simp add: editorRoundTrip_def)
  with writeContext_frame(1) [of js sys st m e st1] Inl p show ?thesis by simp
next
  case (Inr p)
  obtain tf st1 where p: "p = (tf, st1)" by (cases p)
  note fr = writeContext_frame(2) [of js sys st m tf st1]
  show ?thesis
  proof (cases "execSync sys (editor (config st1) @ '' '' @ tf) (fs st1)")
    case Hangs
    with assms Inr p show ?thesis by (simp add: editorRoundTrip_def)
  next
    case (Exited err f)
    show ?thesis
    proof (cases err)
      case (Some e)
      with assms Inr p Exited fr show ?thesis by (auto simp: editorRoundTrip_def)
    next
      case None
      with assms Inr p Exited have x: "x = readBack tf (st1\<lparr>fs := f\<rparr>, m)"
        by (auto simp: editorRoundTrip_def)
      show ?thesis
        unfolding x using readBack_frame [of tf "st1\<lparr>fs := f\<rparr>" m] fr Inr p by simp
    qed
  qed
qed

lemma tryCatch_failedToEdit_frame:
  assumes "tryCatch (Some x) failedToEdit = Some c"
  shows "config (fst (completed c)) = config (fst (completed x))
   \<and> capturedSystem (fst (completed c)) = capturedSystem (fst (completed x))
   \<and> capturedModel (fst (completed c)) = capturedModel (fst (completed x))"
proof (cases x)
  case (Returns p)
  with assms show ?thesis by (cases p) auto
next
  case (Throws e p)
  with assms show ?thesis by (cases p) (auto simp: failedToEdit_def)
qed

lemma messagesTransform_frame:
  assumes "messagesTransform js sys (st, messages) = Some c"
  shows "config (fst (completed c)) = config st
   \<and> capturedSystem (fst (completed c)) = capturedSystem st
   \<and> capturedModel (fst (completed c)) = capturedModel st"
proof -
  define st2 where "st2 = log ''info'' ''Full message context captured''
        (Obj [(''messageCount'', Num (int (length messages))),
              (''systemAvailable'', Bool (length (capturedSystem st) > 0))])
        (st\<lparr>analytics := (analytics st)\<lparr>messagesIntercepted := messagesIntercepted (analytics st) + 1\<rparr>\<rparr>)"
  have st2: "config st2 = config st" "capturedSystem st2 = capturedSystem st"
    "capturedModel st2 = capturedModel st" by (simp_all add: st2_def)
  consider (skip) "c = Returns (st2, messages)"
    | (run) "tryCatch (editorRoundTrip js sys (st2, messages)) failedToEdit = Some c"
    using assms unfolding messagesTransform_def st2_def
    by (auto simp: Let_def split: if_splits)
  then show ?thesis
  proof cases
    case skip
    with st2 show ?thesis by simp
  next
    case run
    then obtain x where x: "editorRoundTrip js sys (st2, messages) = Some x"
      by (cases "editorRoundTrip js sys (st2, messages)") auto
    from tryCatch_failedToEdit_frame [of x c] run x editorRoundTrip_frame [OF x] st2
    show ?thesis by simp
  qed
qed

lemma invoke_captured:
  assumes "invoke js sys c st = Some r"
  shows "config (fst (completed r)) = config st
     \<and> capturedSystem (fst (completed r)) =
         (case c of SystemTransform mdl system \<Rightarrow> system | _ \<Rightarrow> capturedSystem st)"
proof (cases c)
  case (SystemTransform mdl system)
  with assms show ?thesis by (auto simp: systemTransform_def)
next
  case (MessagesTransform messages)
  with assms messagesTransform_frame [of js sys st messages r] show ?thesis by simp
next
  case (ChatMessage a b d)
  with assms show ?thesis by (auto simp: chatMessage_def)
next
  case (Event e)
  with assms show ?thesis by (auto simp: event_def)
next
  case (ToolExecuteBefore a b d)
  with assms show ?thesis by (auto simp: toolExecuteBefore_def)
qed

lemma spec_lastCaptured_none:
  "\<not> list_ex (\<lambda>(sys, c). hookKey c = ''experimental.chat.system.transform'') calls
     \<Longrightarrow> spec_lastCaptured calls = []"
proof (induction calls)
  case Nil
  then show ?case by simp
next
  case (Cons a calls)
  obtain sys c where a: "a = (sys, c)" by (cases a)
  with Cons show ?case by (cases c) auto
qed

lemma invokeAll_captured:
  "invokeAll js calls st0 = Some st \<Longrightarrow>
     config st = config st0
     \<and> capturedSystem st =
         (if list_ex (\<lambda>(sys, c). hookKey c = ''experimental.chat.system.transform'') calls
          then spec_lastCaptured calls else capturedSystem st0)"
proof (induction calls arbitrary: st0)
  case Nil
  then show ?case by simp
next
  case (Cons a calls)
  obtain sys c where a: "a = (sys, c)" by (cases a)
  from Cons.prems a obtain r where r: "invoke js sys c st0 = Some r"
    and rest: "invokeAll js calls (fst (completed r)) = Some st"
    by (cases "invoke js sys c st0"; cases "the (invoke js sys c st0)")
       (auto split: prod.splits)
  note step = invoke_captured [OF r]
  note IH = Cons.IH [OF rest]
  show ?case
  proof (cases "list_ex (\<lambda>(sys, c). hookKey c = ''experimental.chat.system.transform'') calls")
    case True
    with IH step a show ?thesis by simp
  next
    case False
    with IH step a show ?thesis by (cases c) auto
  qed
qed

text \<open>
  Claim C5, amended. Start from a state in which no system prompt is captured, as the
  factory returns it, and run any sequence of calls. When the messages handler then
  writes the document for the editor, the document has the line \<^verbatim>\<open>## System Prompt\<close>
  directly after its preamble exactly when \<^verbatim>\<open>config.showSystemMessages\<close> is true and
  the most recent call of \<^verbatim>\<open>experimental.chat.system.transform\<close> had a non-empty
  \<^verbatim>\<open>output.system\<close>; the section that starts there then lists each string of that
  array.
\<close>

theorem system_section_iff:
  assumes "capturedSystem st0 = []"
    and "invokeAll js calls st0 = Some st"
    and "spec_writtenDocument js sys st messages = Some doc"
  shows "(prefix (joinLines (preambleLines (now sys) (capturedModel st) (length messages)
                              @ [''## System Prompt''])) doc
            \<longleftrightarrow> showSystemMessages (config st0) \<and> spec_lastCaptured calls \<noteq> [])
       \<and> (showSystemMessages (config st0) \<and> spec_lastCaptured calls \<noteq> [] \<longrightarrow>
            prefix (joinLines (preambleLines (now sys) (capturedModel st) (length messages)
                                @ spec_systemSection (spec_lastCaptured calls))) doc)"
proof -
  note ia = invokeAll_captured [OF assms(2)]
  from ia have cfg: "config st = config st0" by (rule conjunct1)
  have cap: "capturedSystem st = spec_lastCaptured calls"
  proof (cases "list_ex (\<lambda>(sys, c). hookKey c = ''experimental.chat.system.transform'') calls")
    case True
    with ia show ?thesis by (simp only: if_True)
  next
    case False
    with ia have "capturedSystem st = capturedSystem st0" by (simp only: if_False)
    with assms(1) spec_lastCaptured_none [OF False] show ?thesis by simp
  qed
  define system where "system = (if showSystemMessages (config st) then capturedSystem st else [])"
  have doc: "doc = formatFullContext js (now sys) system messages (capturedModel st)"
    unfolding system_def using assms(3) by (rule writtenDocument_format)
  have sys: "system \<noteq> [] \<longleftrightarrow> showSystemMessages (config st0) \<and> spec_lastCaptured calls \<noteq> []"
    by (simp add: system_def cfg cap)
  have eq: "system = spec_lastCaptured calls" if "system \<noteq> []"
    using that by (simp add: system_def cap split: if_splits)
  have one: "prefix (joinLines (preambleLines (now sys) (capturedModel st) (length messages)
                              @ [''## System Prompt''])) doc
            \<longleftrightarrow> showSystemMessages (config st0) \<and> spec_lastCaptured calls \<noteq> []"
    unfolding doc section_prefix_iff by (rule sys)
  have two: "prefix (joinLines (preambleLines (now sys) (capturedModel st) (length messages)
                                @ spec_systemSection (spec_lastCaptured calls))) doc"
    if "showSystemMessages (config st0) \<and> spec_lastCaptured calls \<noteq> []"
  proof -
    from that sys have ne: "system \<noteq> []" by blast
    from section_prefix [OF ne, of "now sys" "capturedModel st" messages js]
    show ?thesis unfolding doc eq [OF ne] .
  qed
  from one two show ?thesis by blast
qed

theorem system_section_iff_witness:
  "invokeAll sampleLib oneCapture sampleState = Some afterOneCapture
   \<and> spec_writtenDocument sampleLib (sampleOs editorClosed) afterOneCapture sampleMessages
       = Some (formatFullContext sampleLib ''2024-05-01T12:00:00.000Z'' [''Be brief.'']
                 sampleMessages None)
   \<and> showSystemMessages (config sampleState)
   \<and> spec_lastCaptured oneCapture = [''Be brief.'']
   \<and> prefix (joinLines (preambleLines ''2024-05-01T12:00:00.000Z'' None 1
                          @ spec_systemSection [''Be brief.'']))
        (formatFullContext sampleLib ''2024-05-01T12:00:00.000Z'' [''Be brief.'']
           sampleMessages None)"
proof -
  have h1: "capturedSystem sampleState = []" by (simp add: sampleState_def)
  have h2: "invokeAll sampleLib oneCapture sampleState = Some afterOneCapture"
    by (simp add: oneCapture_def afterOneCapture_def)
  have h3: "spec_writtenDocument sampleLib (sampleOs editorClosed) afterOneCapture sampleMessages
       = Some (formatFullContext sampleLib ''2024-05-01T12:00:00.000Z'' [''Be brief.'']
                 sampleMessages None)"
    by code_simp
  have h4: "showSystemMessages (config sampleState)"
    by (simp add: sampleState_def sampleConfig_def)
  have h5: "spec_lastCaptured oneCapture = [''Be brief.'']"
    by (simp add: oneCapture_def)
  have h6: "now (sampleOs editorClosed) = ''2024-05-01T12:00:00.000Z''"
    "capturedModel afterOneCapture = None" "length sampleMessages = 1"
    by (simp_all add: sampleOs_def afterOneCapture_def systemTransform_def sampleState_def
          sampleMessages_def)
  from system_section_iff [OF h1 h2 h3] h4 h5
  have "prefix (joinLines (preambleLines (now (sampleOs editorClosed)) (capturedModel afterOneCapture)
                   (length sampleMessages) @ spec_systemSection [''Be brief.'']))
        (formatFullContext sampleLib ''2024-05-01T12:00:00.000Z'' [''Be brief.'']
           sampleMessages None)"
    by simp
  with h2 h3 h4 h5 show ?thesis unfolding h6 by simp
qed

text \<open>
  Claim C5 as stated fails in two ways. After a call that captured a non-empty array
  and a later call that captured an empty one, with \<^verbatim>\<open>config.showSystemMessages\<close> true,
  the written document has no \<^verbatim>\<open>## System Prompt\<close> anywhere. And with
  \<^verbatim>\<open>config.showSystemMessages\<close> false, a message whose text spells out the section
  makes the written document contain the section with the captured string.
\<close>

theorem system_section_counterexample:
  "invokeAll sampleLib twoCaptures sampleState = Some afterTwoCaptures
   \<and> spec_someCaptured twoCaptures
   \<and> showSystemMessages (config afterTwoCaptures)
   \<and> spec_writtenDocument sampleLib (sampleOs editorClosed) afterTwoCaptures sampleMessages
       = Some (formatFullContext sampleLib ''2024-05-01T12:00:00.000Z'' [] sampleMessages None)
   \<and> \<not> sublist ''## System Prompt''
         (formatFullContext sampleLib ''2024-05-01T12:00:00.000Z'' [] sampleMessages None)
   \<and> \<not> showSystemMessages (config hiddenSystemState)
   \<and> capturedSystem hiddenSystemState = [''S'']
   \<and> spec_writtenDocument sampleLib (sampleOs editorClosed) hiddenSystemState sectionInText
       = Some (formatFullContext sampleLib ''2024-05-01T12:00:00.000Z'' [] sectionInText None)
   \<and> sublist (joinLines (spec_systemSection [''S'']))
         (formatFullContext sampleLib ''2024-05-01T12:00:00.000Z'' [] sectionInText None)"
proof -
  have h2: "invokeAll sampleLib twoCaptures sampleState = Some afterTwoCaptures"
    by (simp add: twoCaptures_def afterTwoCaptures_def)
  have h3: "spec_someCaptured twoCaptures"
    by (simp add: twoCaptures_def spec_someCaptured_def)
  have h4: "showSystemMessages (config afterTwoCaptures)"
    by (simp add: afterTwoCaptures_def systemTransform_def sampleState_def sampleConfig_def)
  have h5: "spec_writtenDocument sampleLib (sampleOs editorClosed) afterTwoCaptures sampleMessages
       = Some (formatFullContext sampleLib ''2024-05-01T12:00:00.000Z'' [] sampleMessages None)"
    by code_simp
  have h6: "\<not> sublist ''## System Prompt''
         (formatFullContext sampleLib ''2024-05-01T12:00:00.000Z'' [] sampleMessages None)"
    by code_simp
  have k1: "\<not> showSystemMessages (config hiddenSystemState)"
    by (simp add: hiddenSystemState_def systemTransform_def)
  have k2: "capturedSystem hiddenSystemState = [''S'']"
    by (simp add: hiddenSystemState_def systemTransform_def)
  have k3: "spec_writtenDocument sampleLib (sampleOs editorClosed) hiddenSystemState sectionInText
       = Some (formatFullContext sampleLib ''2024-05-01T12:00:00.000Z'' [] sectionInText None)"
    by code_simp
  have k4: "sublist (joinLines (spec_systemSection [''S'']))
         (formatFullContext sampleLib ''2024-05-01T12:00:00.000Z'' [] sectionInText None)"
    by code_simp
  from h2 h3 h4 h5 h6 k1 k2 k3 k4 show ?thesis by simp
qed

section \<open>The factory, failures and termination\<close>

lemma factory_returns:
  "\<exists>st0. MessageInterceptorPlugin parseJSON sys directory hostLog f = Some (Returns (st0, hookKeys))
         \<and> capturedSystem st0 = [] \<and> capturedModel st0 = None \<and> fs st0 = f
         \<and> analytics st0 = \<lparr>messagesIntercepted = 0, messagesEdited = 0, editorSessions = 0\<rparr>"
  by (auto simp: MessageInterceptorPlugin_def loadConfig_def useDefaults_def
           split: sum.splits)

text \<open>
  Claim C4, amended. Every invocation of the factory returns, and the object it returns
  has exactly five handler entries, with five different keys; every call the host can
  make goes to one of them.
\<close>

theorem factory_registers_five:
  "(\<exists>st0. MessageInterceptorPlugin parseJSON sys directory hostLog f
            = Some (Returns (st0, hookKeys)))
   \<and> length hookKeys = 5 \<and> distinct hookKeys \<and> hookKey c \<in> set hookKeys"
proof -
  have "hookKey c \<in> set hookKeys" by (cases c) (simp_all add: hookKeys_def)
  moreover have "length hookKeys = 5" "distinct hookKeys" by (simp_all add: hookKeys_def)
  ultimately show ?thesis using factory_returns [of parseJSON sys directory hostLog f] by blast
qed

text \<open>
  Claim C4 as stated fails: in a project without configuration files the factory
  returns an object whose number of handler entries is not four.
\<close>

theorem four_handlers_counterexample:
  "MessageInterceptorPlugin sampleParse (sampleOs editorClosed) ''/project'' [] (fs sampleState)
     = Some (Returns (factoryDefaults, hookKeys))
   \<and> length hookKeys \<noteq> 4"
  by (simp add: MessageInterceptorPlugin_def loadConfig_def useDefaults_def readConfigData_def
        readFile_def sampleOs_def joinWithSlash_def factoryDefaults_def missingConfig_def hookKeys_def
        sampleState_def)

text \<open>
  Claim C6 at a failing input. The directory \<^verbatim>\<open>/tmp/opencode-message-Ab3xYz\<close> does not
  exist before the handler runs. When the editor is closed without changes, the handler
  unlinks \<^verbatim>\<open>message.md\<close> and the directory is still there after it has returned; when
  the editor command fails, the directory and the file with the document are both
  still there.
\<close>

theorem temp_directory_left_behind:
  "sampleTempDir \<notin> dirs (fs sampleState)
   \<and> dirExistsAfter sampleTempDir
        (messagesTransform sampleLib (sampleOs editorClosed) (sampleState, sampleMessages))
       = Some True
   \<and> fileAfter sampleTempFile
        (messagesTransform sampleLib (sampleOs editorClosed) (sampleState, sampleMessages))
       = Some None
   \<and> dirExistsAfter sampleTempDir
        (messagesTransform sampleLib (sampleOs editorFails) (sampleState, sampleMessages))
       = Some True
   \<and> fileAfter sampleTempFile
        (messagesTransform sampleLib (sampleOs editorFails) (sampleState, sampleMessages))
       = Some (Some (formatFullContext sampleLib ''2024-05-01T12:00:00.000Z'' []
                       sampleMessages None))"
  by code_simp

theorem temp_directory_left_behind_witness:
  "sampleTempDir \<notin> dirs (fs sampleState)
   \<and> dirExistsAfter sampleTempDir
        (messagesTransform sampleLib (sampleOs editorClosed) (sampleState, sampleMessages))
       = Some True"
  using temp_directory_left_behind by blast

text \<open>
  Claim C7 as stated fails: with an editor process that never exits, the messages
  handler never returns.
\<close>

theorem editor_never_exits_counterexample:
  "invoke sampleLib (sampleOs editorNeverExits) (MessagesTransform sampleMessages) sampleState
     = None"
  by code_simp

lemma editorRoundTrip_returns:
  assumes "editorExits sys"
  shows "\<exists>x. editorRoundTrip js sys (st, messages) = Some x"
proof (cases "writeContext js sys (st, messages)")
  case (Inl p)
  then show ?thesis by (cases p) (simp add: editorRoundTrip_def)
next
  case (Inr p)
  obtain tf st1 where p: "p = (tf, st1)" by (cases p)
  from assms have "execSync sys (editor (config st1) @ '' '' @ tf) (fs st1) \<noteq> Hangs"
    by (simp add: editorExits_def)
  then obtain err f where "execSync sys (editor (config st1) @ '' '' @ tf) (fs st1) = Exited err f"
    by (cases "execSync sys (editor (config st1) @ '' '' @ tf) (fs st1)") auto
  with Inr p show ?thesis by (cases err) (simp_all add: editorRoundTrip_def)
qed

lemma messagesTransform_try:
  assumes "enableEditor (config st)" "autoEdit (config st)" "messages \<noteq> []"
    "list_ex (\<lambda>p. part_type p = ''text'') (parts (last messages))"
  shows "messagesTransform js sys (st, messages)
           = tryCatch (editorRoundTrip js sys (spec_tryEntry st messages, messages)) failedToEdit"
  using assms by (simp add: messagesTransform_def spec_tryEntry_def Let_def)

lemma messagesTransform_skip:
  assumes "\<not> (enableEditor (config st) \<and> autoEdit (config st) \<and> messages \<noteq> []
    \<and> list_ex (\<lambda>p. part_type p = ''text'') (parts (last messages)))"
  shows "messagesTransform js sys (st, messages) = Some (Returns (spec_tryEntry st messages, messages))"
  using assms by (auto simp: messagesTransform_def spec_tryEntry_def Let_def)

lemma messagesTransform_returns:
  assumes "editorExits sys"
  shows "\<exists>r. messagesTransform js sys (st, messages) = Some (Returns r)"
proof (cases "enableEditor (config st) \<and> autoEdit (config st) \<and> messages \<noteq> []
    \<and> list_ex (\<lambda>p. part_type p = ''text'') (parts (last messages))")
  case False
  then show ?thesis by (simp add: messagesTransform_skip)
next
  case True
  from editorRoundTrip_returns [OF assms] obtain x where
    "editorRoundTrip js sys (spec_tryEntry st messages, messages) = Some x" by blast
  with tryCatch_failedToEdit [of x] True show ?thesis
    by (auto simp: messagesTransform_try)
qed

text \<open>
  Claim C7, amended. Every call of a registered handler returns, provided that the
  editor process exits whenever it is started; the handlers other than
  \<^verbatim>\<open>experimental.chat.messages.transform\<close> return in any case. The loops of
  \<open>formatFullContext\<close> and of the splice are the recursions \<open>systemLoop\<close>,
  \<open>partsLoop\<close>, \<open>messagesLoop\<close> and \<open>spliceLoop\<close>, each bounded by the length of
  the list it runs over.
\<close>

theorem handlers_return:
  assumes "editorExits sys \<or> hookKey c \<noteq> ''experimental.chat.messages.transform''"
  shows "\<exists>r. invoke js sys c st = Some (Returns r)"
proof (cases c)
  case (MessagesTransform messages)
  with assms have "editorExits sys" by simp
  from messagesTransform_returns [OF this] MessagesTransform show ?thesis by simp
qed simp_all

theorem handlers_return_witness:
  "editorExits (sampleOs editorClosed)
   \<and> (\<exists>r. invoke sampleLib (sampleOs editorClosed) (MessagesTransform sampleHistory) sampleState
            = Some (Returns r))
   \<and> hookKey (Event ''session.created'') \<noteq> ''experimental.chat.messages.transform''
   \<and> (\<exists>r. invoke sampleLib (sampleOs editorNeverExits) (Event ''session.created'') sampleState
            = Some (Returns r))"
proof -
  have h1: "editorExits (sampleOs editorClosed)"
    by (simp add: editorExits_def sampleOs_def editorClosed_def)
  have h2: "hookKey (Event ''session.created'') \<noteq> ''experimental.chat.messages.transform''"
    by simp
  from h1 have a: "editorExits (sampleOs editorClosed)
      \<or> hookKey (MessagesTransform sampleHistory) \<noteq> ''experimental.chat.messages.transform''" ..
  from h2 have b: "editorExits (sampleOs editorNeverExits)
      \<or> hookKey (Event ''session.created'') \<noteq> ''experimental.chat.messages.transform''" ..
  from handlers_return [OF a] handlers_return [OF b] h1 h2 show ?thesis by blast
qed










end
